theory Spec2Isabelle
  imports Main "HOL-Library.Word" "HOL-Library.Sublist"
begin

unbundle bit_operations_syntax

section \<open>ByteFunctionFactory (Java): transform type words and names\<close>

text \<open>
  A Java \<open>int\<close> is a 32-bit word: \<open>>>>\<close> is \<open>drop_bit\<close>, \<open><<\<close> is \<open>push_bit\<close>
  (Java masks the shift distance of an \<open>int\<close> to its low five bits), \<open>|\<close> is \<open>OR\<close>.
  A Java \<open>String\<close> is a \<open>string\<close>; only ASCII letters are case-converted.
  An \<open>IllegalArgumentException\<close> is the error value carrying its message.
\<close>

datatype error = IllegalArgumentException string

definition NONE_TYPE :: "32 word" where "NONE_TYPE = 0"
definition BWT_TYPE :: "32 word" where "BWT_TYPE = 1"
definition BWTS_TYPE :: "32 word" where "BWTS_TYPE = 2"
definition LZ4_TYPE :: "32 word" where "LZ4_TYPE = 3"
definition SNAPPY_TYPE :: "32 word" where "SNAPPY_TYPE = 4"
definition RLT_TYPE :: "32 word" where "RLT_TYPE = 5"
definition ZRLT_TYPE :: "32 word" where "ZRLT_TYPE = 6"
definition MTFT_TYPE :: "32 word" where "MTFT_TYPE = 7"
definition RANK_TYPE :: "32 word" where "RANK_TYPE = 8"
definition X86_TYPE :: "32 word" where "X86_TYPE = 9"
definition DICT_TYPE :: "32 word" where "DICT_TYPE = 10"

subsection \<open>Strings\<close>

text \<open>\<open>String.toUpperCase\<close>, on the ASCII letters.\<close>

definition upper_char :: "char \<Rightarrow> char" where
  "upper_char c =
     (let n = (of_char c :: nat) in if 97 \<le> n \<and> n \<le> 122 then char_of (n - 32) else c)"

definition toUpperCase :: "string \<Rightarrow> string" where
  "toUpperCase s = map upper_char s"

text \<open>
  The pieces of a string between the occurrences of a separator; \<open>n\<close> separators give
  \<open>n + 1\<close> pieces, some of them possibly empty.
\<close>

fun pieces :: "char \<Rightarrow> string \<Rightarrow> string list" where
  "pieces c [] = [[]]"
| "pieces c (x # xs) =
     (if x = c then [] # pieces c xs else (x # hd (pieces c xs)) # tl (pieces c xs))"

text \<open>
  \<open>name.split("\\+")\<close>: a string with no separator is returned whole; otherwise the pieces,
  with the trailing empty ones removed (a leading empty piece stays).
\<close>

definition split_plus :: "string \<Rightarrow> string list" where
  "split_plus name =
     (if CHR ''+'' \<notin> set name then [name]
      else rev (dropWhile (\<lambda>t. t = []) (rev (pieces CHR ''+'' name))))"

text \<open>\<open>Integer.toString\<close>, for the messages that append an \<open>int\<close>.\<close>

fun digits :: "nat \<Rightarrow> string" where
  "digits n = (if n < 10 then [char_of (48 + n)] else digits (n div 10) @ [char_of (48 + n mod 10)])"

definition toString :: "32 word \<Rightarrow> string" where
  "toString i = (if sint i < 0 then ''-'' @ digits (nat (- sint i)) else digits (nat (sint i)))"

subsection \<open>getTypeToken and getType\<close>

definition getTypeToken :: "string \<Rightarrow> error + 32 word" where
  "getTypeToken name0 =
     (let name = toUpperCase name0 in
      if name = ''BWT'' then Inr BWT_TYPE
      else if name = ''BWTS'' then Inr BWTS_TYPE
      else if name = ''SNAPPY'' then Inr SNAPPY_TYPE
      else if name = ''LZ4'' then Inr LZ4_TYPE
      else if name = ''MTFT'' then Inr MTFT_TYPE
      else if name = ''ZRLT'' then Inr ZRLT_TYPE
      else if name = ''RLT'' then Inr RLT_TYPE
      else if name = ''RANK'' then Inr RANK_TYPE
      else if name = ''X86'' then Inr X86_TYPE
      else if name = ''TEXT'' then Inr DICT_TYPE
      else if name = ''NONE'' then Inr NONE_TYPE
      else Inl (IllegalArgumentException (''Unknown transform type: '' @ name)))"

text \<open>
  The loop of \<open>getType\<close> over the tokens, with its two variables \<open>res\<close> and \<open>shift\<close>.
\<close>

fun getType_loop :: "string list \<Rightarrow> 32 word \<Rightarrow> int \<Rightarrow> error + 32 word" where
  "getType_loop [] res shift = Inr res"
| "getType_loop (token # tokens) res shift =
     (case getTypeToken token of
        Inl e \<Rightarrow> Inl e
      | Inr typeTk \<Rightarrow>
          if typeTk \<noteq> NONE_TYPE
          then getType_loop tokens (res OR push_bit (nat (shift mod 32)) typeTk) (shift - 4)
          else getType_loop tokens res shift)"

definition getType :: "string \<Rightarrow> error + 32 word" where
  "getType name =
     (if CHR ''+'' \<notin> set name then
        (case getTypeToken name of Inl e \<Rightarrow> Inl e | Inr t \<Rightarrow> Inr (push_bit 28 t))
      else
        let tokens = split_plus name in
        if length tokens = 0 then
          Inl (IllegalArgumentException (''Unknown transform type: '' @ name))
        else if length tokens > 8 then
          Inl (IllegalArgumentException (''Only 8 transforms allowed: '' @ name))
        else getType_loop tokens 0 28)"

subsection \<open>getNameToken and getName\<close>

definition getNameToken :: "32 word \<Rightarrow> error + string" where
  "getNameToken functionType =
     (let t = functionType AND 0x0F in
      if t = LZ4_TYPE then Inr ''LZ4''
      else if t = BWT_TYPE then Inr ''BWT''
      else if t = BWTS_TYPE then Inr ''BWTS''
      else if t = SNAPPY_TYPE then Inr ''SNAPPY''
      else if t = MTFT_TYPE then Inr ''MTFT''
      else if t = ZRLT_TYPE then Inr ''ZRLT''
      else if t = RLT_TYPE then Inr ''RLT''
      else if t = RANK_TYPE then Inr ''RANK''
      else if t = X86_TYPE then Inr ''X86''
      else if t = DICT_TYPE then Inr ''TEXT''
      else if t = NONE_TYPE then Inr ''NONE''
      else Inl (IllegalArgumentException (''Unknown transform type: '' @ toString functionType)))"

text \<open>
  The loop of \<open>getName\<close> over \<open>i = 0..7\<close>; \<open>sb\<close> is the \<open>StringBuilder\<close>.
\<close>

fun getName_loop :: "32 word \<Rightarrow> nat list \<Rightarrow> string \<Rightarrow> error + string" where
  "getName_loop functionType [] sb = Inr sb"
| "getName_loop functionType (i # is) sb =
     (let t = drop_bit (28 - 4 * i) functionType in
      if t AND 0x0F = NONE_TYPE then getName_loop functionType is sb
      else
        (case getNameToken t of
           Inl e \<Rightarrow> Inl e
         | Inr name \<Rightarrow>
             getName_loop functionType is
               ((if length sb \<noteq> 0 then sb @ ''+'' else sb) @ name)))"

definition getName :: "32 word \<Rightarrow> error + string" where
  "getName functionType =
     (case getName_loop functionType [0..<8] [] of
        Inl e \<Rightarrow> Inl e
      | Inr sb \<Rightarrow>
          if length sb = 0 then
            (case getNameToken NONE_TYPE of Inl e \<Rightarrow> Inl e | Inr name \<Rightarrow> Inr (sb @ name))
          else Inr sb)"

subsection \<open>newFunctionToken and newFunction\<close>

text \<open>
  The transform classes are outside this development: an instance is the name of its
  class with its constructor arguments. \<open>'c\<close> is the type of the context handed to
  \<open>TextCodec\<close>; the closed statements below take the empty map from strings to strings.
\<close>

datatype 'c ByteTransform =
    SnappyCodec | LZ4Codec | BWTBlockCodec | BWTS | MTFT | ZRLT | RLT
  | SBRT_MODE_RANK | TextCodec 'c | X86Codec | NullFunction

definition newFunctionToken :: "'c \<Rightarrow> 32 word \<Rightarrow> error + 'c ByteTransform" where
  "newFunctionToken ctx functionType =
     (let t = functionType AND 0x0F in
      if t = SNAPPY_TYPE then Inr SnappyCodec
      else if t = LZ4_TYPE then Inr LZ4Codec
      else if t = BWT_TYPE then Inr BWTBlockCodec
      else if t = BWTS_TYPE then Inr BWTS
      else if t = MTFT_TYPE then Inr MTFT
      else if t = ZRLT_TYPE then Inr ZRLT
      else if t = RLT_TYPE then Inr RLT
      else if t = RANK_TYPE then Inr SBRT_MODE_RANK
      else if t = DICT_TYPE then Inr (TextCodec ctx)
      else if t = X86_TYPE then Inr X86Codec
      else if t = NONE_TYPE then Inr NullFunction
      else Inl (IllegalArgumentException (''Unknown transform type: '' @ toString functionType)))"

text \<open>The nibble of slot \<open>i\<close>: \<open>(functionType >>> (28-4*i)) & 0x0F\<close>.\<close>

definition nibble :: "32 word \<Rightarrow> nat \<Rightarrow> 32 word" where
  "nibble functionType i = drop_bit (28 - 4 * i) functionType AND 0x0F"

text \<open>
  The second loop of \<open>newFunction\<close>, over \<open>i = 0 .. transforms.length - 1\<close>; \<open>filled\<close> is
  \<open>transforms[0 .. nbtr-1]\<close>, the part of the array written so far.
\<close>

fun newFunction_fill ::
  "'c \<Rightarrow> 32 word \<Rightarrow> nat list \<Rightarrow> 'c ByteTransform list \<Rightarrow> error + 'c ByteTransform list"
where
  "newFunction_fill ctx functionType [] filled = Inr filled"
| "newFunction_fill ctx functionType (i # is) filled =
     (let t = nibble functionType i in
      if t \<noteq> NONE_TYPE \<or> i = 0 then
        (case newFunctionToken ctx t of
           Inl e \<Rightarrow> Inl e
         | Inr tr \<Rightarrow> newFunction_fill ctx functionType is (filled @ [tr]))
      else newFunction_fill ctx functionType is filled)"

text \<open>
  \<open>newFunction\<close> returns the array it hands to \<open>ByteTransformSequence\<close>. A slot of the array
  that the loop never writes keeps Java's \<open>null\<close>, which is \<open>None\<close> here.
\<close>

definition newFunction :: "'c \<Rightarrow> 32 word \<Rightarrow> error + 'c ByteTransform option list" where
  "newFunction ctx functionType =
     (let nbtr0 = length (filter (\<lambda>i. nibble functionType i \<noteq> NONE_TYPE) [0..<8]);
          nbtr = (if nbtr0 = 0 then 1 else nbtr0)
      in case newFunction_fill ctx functionType [0..<nbtr] [] of
           Inl e \<Rightarrow> Inl e
         | Inr filled \<Rightarrow> Inr (map Some filled @ replicate (nbtr - length filled) None))"
section \<open>ExpGolombDecoder (C++)\<close>

subsection \<open>The input bit stream\<close>

text \<open>
  Modelled from the spec: the class \<open>InputBitStream\<close> (\<open>readBit\<close>, \<open>readBits\<close>) is not
  part of the sources. Following the bit stream contract of the specification, a stream is
  the list of the bits still to be read; \<open>readBits n\<close> reads \<open>1 \<le> n \<le> 64\<close> bits, the
  first bit read being the most significant one of the value; a read past the end of the
  stream, or of a number of bits outside \<open>1..64\<close>, raises.
\<close>

datatype bs_error = BitStreamException

definition readBit :: "bool list \<Rightarrow> bs_error + (nat \<times> bool list)" where
  "readBit bs = (case bs of [] \<Rightarrow> Inl BitStreamException | b # bs' \<Rightarrow> Inr (if b then 1 else 0, bs'))"

definition bits_value :: "bool list \<Rightarrow> nat" where
  "bits_value bs = foldl (\<lambda>a b. 2 * a + (if b then 1 else 0)) 0 bs"

definition readBits :: "nat \<Rightarrow> bool list \<Rightarrow> bs_error + (nat \<times> bool list)" where
  "readBits n bs =
     (if n = 0 \<or> 64 < n \<or> length bs < n then Inl BitStreamException
      else Inr (bits_value (take n bs), drop n bs))"

subsection \<open>decodeByte\<close>

text \<open>
  The type \<open>byte\<close> is declared outside the sources; its values are 8-bit words, and
  whether it is a signed type matters in one place only, the shift \<open>res >> 1\<close>: the
  parameter \<open>byteIsSigned\<close> says which shift it is.
  \<open>1 << log2\<close> is a shift of the \<open>int\<close> 1; for \<open>log2 \<ge> 31\<close> C++ leaves it undefined and the
  model takes the shift distance modulo 32, as the processor does. No statement below is
  about that range.
\<close>

definition shift_right_1 :: "bool \<Rightarrow> 8 word \<Rightarrow> 8 word" where
  "shift_right_1 byteIsSigned res = (if byteIsSigned then signed_drop_bit 1 res else drop_bit 1 res)"

definition one_shl :: "nat \<Rightarrow> 32 word" where
  "one_shl log2 = push_bit (log2 mod 32) 1"

text \<open>The loop \<open>while (_bitstream.readBit() == 0) log2++\<close>.\<close>

function zero_run :: "nat \<Rightarrow> bool list \<Rightarrow> bs_error + (nat \<times> bool list)" where
  "zero_run log2 bs =
     (case readBit bs of
        Inl e \<Rightarrow> Inl e
      | Inr (b, bs') \<Rightarrow> if b = 0 then zero_run (log2 + 1) bs' else Inr (log2, bs'))"
  by pat_completeness auto
termination
  by (relation "measure (\<lambda>(log2, bs). length bs)") (auto simp: readBit_def split: list.splits)

declare zero_run.simps [simp del]

definition decodeByte :: "bool \<Rightarrow> bool \<Rightarrow> bool list \<Rightarrow> bs_error + (8 word \<times> bool list)" where
  "decodeByte byteIsSigned is_signed bs =
     (case readBit bs of
        Inl e \<Rightarrow> Inl e
      | Inr (b, bs1) \<Rightarrow>
          if b = 1 then Inr (0, bs1)
          else
            (case zero_run 1 bs1 of
               Inl e \<Rightarrow> Inl e
             | Inr (log2, bs2) \<Rightarrow>
                 if is_signed then
                   (case readBits (log2 + 1) bs2 of
                      Inl e \<Rightarrow> Inl e
                    | Inr (v, bs3) \<Rightarrow>
                        let res0 = (word_of_nat v :: 8 word);
                            sgn = res0 AND 1;
                            res = shift_right_1 byteIsSigned res0 + ucast (one_shl log2) - 1
                        in Inr ((res - sgn) XOR (- sgn), bs3))
                 else
                   (case readBits log2 bs2 of
                      Inl e \<Rightarrow> Inl e
                    | Inr (v, bs3) \<Rightarrow> Inr (ucast (one_shl log2 - 1) + word_of_nat v, bs3))))"

subsection \<open>decode\<close>

text \<open>
  \<open>block\<close> is a pointer: the memory it points into is a function from offsets to bytes,
  and \<open>buf[i]\<close> is the byte at offset \<open>blkptr + i\<close>. A state of the loops is the memory
  and the bit stream. An exception leaves the bytes already stored in place: the error
  carries the memory as it stands.
\<close>

type_synonym dec_state = "(nat \<Rightarrow> 8 word) \<times> bool list"

definition and_then :: "'e + 'a \<Rightarrow> ('a \<Rightarrow> 'e + 'b) \<Rightarrow> 'e + 'b" where
  "and_then m f = (case m of Inl e \<Rightarrow> Inl e | Inr x \<Rightarrow> f x)"

text \<open>The statement \<open>buf[i] = decodeByte()\<close>.\<close>

definition store_decodeByte ::
  "bool \<Rightarrow> bool \<Rightarrow> nat \<Rightarrow> nat \<Rightarrow> dec_state \<Rightarrow> (bs_error \<times> (nat \<Rightarrow> 8 word)) + dec_state" where
  "store_decodeByte byteIsSigned is_signed blkptr i s =
     (case s of (block, bs) \<Rightarrow>
        (case decodeByte byteIsSigned is_signed bs of
           Inl e \<Rightarrow> Inl (e, block)
         | Inr (b, bs') \<Rightarrow> Inr (block(blkptr + i := b), bs')))"

text \<open>The loop \<open>for (uint i = 0; i < len8; i+=8)\<close> with its eight statements.\<close>

function decode_loop8 ::
  "bool \<Rightarrow> bool \<Rightarrow> nat \<Rightarrow> nat \<Rightarrow> nat \<Rightarrow> dec_state \<Rightarrow> (bs_error \<times> (nat \<Rightarrow> 8 word)) + dec_state"
where
  "decode_loop8 byteIsSigned is_signed blkptr len8 i s =
     (if i < len8 then
        and_then (store_decodeByte byteIsSigned is_signed blkptr i s) (\<lambda>s.
        and_then (store_decodeByte byteIsSigned is_signed blkptr (i + 1) s) (\<lambda>s.
        and_then (store_decodeByte byteIsSigned is_signed blkptr (i + 2) s) (\<lambda>s.
        and_then (store_decodeByte byteIsSigned is_signed blkptr (i + 3) s) (\<lambda>s.
        and_then (store_decodeByte byteIsSigned is_signed blkptr (i + 4) s) (\<lambda>s.
        and_then (store_decodeByte byteIsSigned is_signed blkptr (i + 5) s) (\<lambda>s.
        and_then (store_decodeByte byteIsSigned is_signed blkptr (i + 6) s) (\<lambda>s.
        and_then (store_decodeByte byteIsSigned is_signed blkptr (i + 7) s) (\<lambda>s.
        decode_loop8 byteIsSigned is_signed blkptr len8 (i + 8) s))))))))
      else Inr s)"
  by pat_completeness auto
termination
  by (relation "measure (\<lambda>(byteIsSigned, is_signed, blkptr, len8, i, s). len8 - i)") auto

declare decode_loop8.simps [simp del]

text \<open>The loop \<open>for (uint i = len8; i < len; i++)\<close>.\<close>

function decode_loop1 ::
  "bool \<Rightarrow> bool \<Rightarrow> nat \<Rightarrow> nat \<Rightarrow> nat \<Rightarrow> dec_state \<Rightarrow> (bs_error \<times> (nat \<Rightarrow> 8 word)) + dec_state"
where
  "decode_loop1 byteIsSigned is_signed blkptr len i s =
     (if i < len then
        and_then (store_decodeByte byteIsSigned is_signed blkptr i s) (\<lambda>s.
        decode_loop1 byteIsSigned is_signed blkptr len (i + 1) s)
      else Inr s)"
  by pat_completeness auto
termination
  by (relation "measure (\<lambda>(byteIsSigned, is_signed, blkptr, len, i, s). len - i)") auto

declare decode_loop1.simps [simp del]

text \<open>
  \<open>blkptr\<close> and \<open>len\<close> are \<open>uint\<close>, 32-bit words; \<open>len8 = len & uint(-8)\<close>. The result is
  the memory, the bit stream and the value returned.
\<close>

definition decode ::
  "bool \<Rightarrow> bool \<Rightarrow> (nat \<Rightarrow> 8 word) \<Rightarrow> 32 word \<Rightarrow> 32 word \<Rightarrow> bool list \<Rightarrow>
     (bs_error \<times> (nat \<Rightarrow> 8 word)) + ((nat \<Rightarrow> 8 word) \<times> bool list \<times> 32 word)" where
  "decode byteIsSigned is_signed block blkptr len bs =
     (let len8 = len AND (- 8) in
      and_then (decode_loop8 byteIsSigned is_signed (unat blkptr) (unat len8) 0 (block, bs)) (\<lambda>s.
      and_then (decode_loop1 byteIsSigned is_signed (unat blkptr) (unat len) (unat len8) s) (\<lambda>s.
      case s of (block', bs') \<Rightarrow> Inr (block', bs', len))))"

section \<open>ANSRangeEncoder (C++)\<close>

text \<open>
  An \<open>int\<close> and a \<open>uint\<close> are 32-bit words, a \<open>uint64\<close> a 64-bit word; \<open>sint\<close> reads a
  word as the signed \<open>int\<close> it holds. The class declarations are outside the sources. The
  fields of \<open>ANSEncSymbol\<close> are typed as the code uses them: \<open>_xMax\<close>, \<open>_bias\<close> and
  \<open>_cmplFreq\<close> are \<open>int\<close>, \<open>_invShift\<close> is a shift distance, \<open>_invFreq\<close> is a \<open>uint64\<close>.
  The constants \<open>ANS_TOP\<close> and \<open>MAX_CHUNK_SIZE\<close> are parameters of the functions that use
  them.
\<close>

record ANSEncSymbol =
  xMax :: "32 word"
  bias :: "32 word"
  cmplFreq :: "32 word"
  invShift :: nat
  invFreq :: "64 word"

subsection \<open>ANSEncSymbol::reset\<close>

text \<open>
  The arithmetic of \<open>reset\<close> is done on the integers and a value is cut to its 32 or 64
  bits where it is stored in a field; this is the machine arithmetic as long as
  \<open>1 << logRange\<close> and \<open>1 << shift\<close> do not overflow, that is for \<open>logRange \<le> 30\<close> (the
  constructor of the encoder admits 8..16 only). \<open>x >> n\<close> is \<open>x div 2 ^ n\<close> and
  \<open>x << n\<close> is \<open>x * 2 ^ n\<close>.
\<close>

text \<open>The loop \<open>while (freq > (1 << shift)) shift++\<close>.\<close>

function reset_shift :: "int \<Rightarrow> nat \<Rightarrow> nat" where
  "reset_shift freq shift = (if freq > 2 ^ shift then reset_shift freq (shift + 1) else shift)"
  by pat_completeness auto
termination
  by (relation "measure (\<lambda>(freq, shift). nat (freq - 2 ^ shift))") auto

declare reset_shift.simps [simp del]

definition reset :: "32 word \<Rightarrow> int \<Rightarrow> int \<Rightarrow> nat \<Rightarrow> ANSEncSymbol" where
  "reset ANS_TOP cumFreq freq0 logRange =
     (let freq = (if freq0 \<ge> 2 ^ logRange then 2 ^ logRange - 1 else freq0);
          x = word_of_int (((sint ANS_TOP div 2 ^ logRange) * 2 ^ 8) * freq);
          c = word_of_int (2 ^ logRange - freq)
      in if freq < 2 then
           \<lparr>xMax = x, bias = word_of_int (cumFreq + 2 ^ logRange - 1), cmplFreq = c,
            invShift = 32, invFreq = 0xFFFFFFFF\<rparr>
         else
           let shift = reset_shift freq 0 in
           \<lparr>xMax = x, bias = word_of_int cumFreq, cmplFreq = c,
            invShift = 32 + shift - 1,
            invFreq = word_of_int ((2 ^ (shift + 31) + freq - 1) div freq) AND 0xFFFFFFFF\<rparr>)"

subsection \<open>The encoder and its bit stream\<close>

text \<open>
  The class \<open>OutputBitStream\<close> and \<open>EntropyUtils::writeVarInt\<close> are outside the sources:
  the bit stream is the list of the writes made to it, oldest first.
\<close>

datatype bs_write =
    WriteVarInt "32 word"
  | WriteBits "64 word" nat
  | WriteBytes "8 word list" nat

text \<open>
  The arrays are functions from indices to elements. \<open>_buffer\<close> is written from its end
  downwards through a pointer, so its memory is indexed by integers (index 0 is
  \<open>_buffer[0]\<close>).
\<close>

record ANSRangeEncoder =
  bitstream :: "bs_write list"
  order :: "32 word"
  chunkSize :: "32 word"
  logRange :: "32 word"
  alphabet :: "nat \<Rightarrow> 32 word"
  freqs :: "nat \<Rightarrow> 32 word"
  symbols :: "nat \<Rightarrow> ANSEncSymbol"
  buffer :: "int \<Rightarrow> 8 word"
  bufferSize :: "32 word"

subsection \<open>encodeChunk\<close>

text \<open>
  The local state of \<open>encodeChunk\<close>: the ANS state \<open>st\<close>, the pointer \<open>p\<close> as an index
  into \<open>_buffer\<close>, and the memory of \<open>_buffer\<close>.
\<close>

type_synonym enc_local = "32 word \<times> int \<times> (int \<Rightarrow> 8 word)"

text \<open>
  The loop \<open>while (st >= sym._xMax) { *p-- = byte(st); st >>= 8; }\<close>. It does not end
  when \<open>sym._xMax \<le> 0 \<le> st\<close>.
\<close>

partial_function (option) renormalize ::
  "32 word \<Rightarrow> 32 word \<Rightarrow> int \<Rightarrow> (int \<Rightarrow> 8 word) \<Rightarrow> enc_local option" where
  "renormalize xmax st p buf =
     (if sint xmax \<le> sint st then renormalize xmax (signed_drop_bit 8 st) (p - 1) (buf(p := ucast st))
      else Some (st, p, buf))"

declare renormalize.simps [code]

text \<open>
  The encoding of one symbol with its entry \<open>sym\<close> of \<open>_symbols\<close>: the renormalization
  loop, then
  \<open>q = (st * sym._invFreq) >> sym._invShift; st = int(st + sym._bias + q * sym._cmplFreq)\<close>.
  The code has this text three times.
\<close>

definition encode_symbol :: "ANSEncSymbol \<Rightarrow> enc_local \<Rightarrow> enc_local option" where
  "encode_symbol sy s =
     (case s of (st0, p0, buf0) \<Rightarrow>
        (case renormalize (xMax sy) st0 p0 buf0 of
           None \<Rightarrow> None
         | Some (st, p, buf) \<Rightarrow>
             let q = (drop_bit (invShift sy) (scast st * invFreq sy) :: 64 word)
             in Some (ucast (scast (st + bias sy) + q * scast (cmplFreq sy) :: 64 word), p, buf)))"

text \<open>The loop of order 0, \<open>for (int i = end - 1; i >= 0; i--)\<close>.\<close>

function order0_loop ::
  "(nat \<Rightarrow> ANSEncSymbol) \<Rightarrow> (int \<Rightarrow> 8 word) \<Rightarrow> int \<Rightarrow> enc_local \<Rightarrow> enc_local option" where
  "order0_loop symb data i s =
     (if 0 \<le> i then
        (case encode_symbol (symb (unat (data i))) s of
           None \<Rightarrow> None
         | Some s' \<Rightarrow> order0_loop symb data (i - 1) s')
      else Some s)"
  by pat_completeness auto
termination
  by (relation "measure (\<lambda>(symb, data, i, s). nat (i + 1))") auto

declare order0_loop.simps [simp del]

text \<open>
  The branch of order 1. Its control is written once, for any action \<open>visit\<close> on the index
  at which \<open>_symbols\<close> is read; in \<open>encodeChunk\<close> the action is the encoding of one symbol
  with the entry at that index. \<open>order1_loop\<close> is the loop
  \<open>for (int i = end - 2; i >= 0; i--)\<close> with its variable \<open>prv\<close>, and \<open>order1_encode\<close> is
  the whole branch, from \<open>int prv = block[end - 1] & 0xFF\<close> to the last symbol.
\<close>

function order1_loop ::
  "(nat \<Rightarrow> 's \<Rightarrow> 's option) \<Rightarrow> (int \<Rightarrow> 8 word) \<Rightarrow> int \<Rightarrow> 32 word \<Rightarrow> 's \<Rightarrow> (32 word \<times> 's) option"
where
  "order1_loop visit data i prv s =
     (if 0 \<le> i then
        (let cur = (ucast (data i) :: 32 word) in
         case visit (unat (push_bit 8 cur OR prv)) s of
           None \<Rightarrow> None
         | Some s' \<Rightarrow> order1_loop visit data (i - 1) cur s')
      else Some (prv, s))"
  by pat_completeness auto
termination
  by (relation "measure (\<lambda>(visit, data, i, prv, s). nat (i + 1))") auto

declare order1_loop.simps [simp del]

definition order1_encode ::
  "(nat \<Rightarrow> 's \<Rightarrow> 's option) \<Rightarrow> (int \<Rightarrow> 8 word) \<Rightarrow> int \<Rightarrow> 's \<Rightarrow> 's option" where
  "order1_encode visit block end s =
     (let prv = (ucast (block (end - 1)) :: 32 word) in
      case order1_loop visit block (end - 2) prv s of
        None \<Rightarrow> None
      | Some (prv', s') \<Rightarrow> visit (unat prv') s')"

text \<open>
  The end of \<open>encodeChunk\<close>: the three writes to the bit stream, from the final local
  state; \<open>p0\<close> is the index of the last byte of \<open>_buffer\<close>.
\<close>

definition write_chunk :: "ANSRangeEncoder \<Rightarrow> int \<Rightarrow> enc_local \<Rightarrow> ANSRangeEncoder" where
  "write_chunk enc p0 s =
     (case s of (st, p, buf) \<Rightarrow>
        let nbits = unat (8 * (word_of_int (p0 - p) :: 32 word)) in
        enc\<lparr>buffer := buf,
            bitstream := bitstream enc @
              [WriteVarInt (word_of_int (p0 - p)),
               WriteBits (scast st) 32,
               WriteBytes (map buf [p + 1 .. p + int (nbits div 8)]) nbits]\<rparr>)"

definition encodeChunk ::
  "32 word \<Rightarrow> ANSRangeEncoder \<Rightarrow> (int \<Rightarrow> 8 word) \<Rightarrow> int \<Rightarrow> ANSRangeEncoder option" where
  "encodeChunk ANS_TOP enc block end =
     (let st = ANS_TOP;
          p0 = int (unat (bufferSize enc - 1));
          s0 = (st, p0, buffer enc);
          r = (if order enc = 0 then order0_loop (symbols enc) block (end - 1) s0
               else order1_encode (\<lambda>idx. encode_symbol (symbols enc idx)) block end s0)
      in case r of None \<Rightarrow> None | Some s \<Rightarrow> Some (write_chunk enc p0 s))"

subsection \<open>encode\<close>

text \<open>The loop \<open>while ((lr > 8) && (1 << lr > sizeChunk)) lr--\<close>.\<close>

function lower_lr :: "int \<Rightarrow> int \<Rightarrow> int" where
  "lower_lr lr sizeChunk =
     (if lr > 8 \<and> 2 ^ nat lr > sizeChunk then lower_lr (lr - 1) sizeChunk else lr)"
  by pat_completeness auto
termination
  by (relation "measure (\<lambda>(lr, sizeChunk). nat lr)") auto

declare lower_lr.simps [simp del]

text \<open>
  \<open>rebuildStatistics\<close> is a parameter of \<open>encode\<close>: what it does to the encoder (the
  frequency, alphabet and symbol tables and the header written to the bit stream) is
  decided by \<open>Global::computeHistogram\<close>, \<open>EntropyUtils::normalizeFrequencies\<close> and
  \<open>EntropyUtils::encodeAlphabet\<close>, which are outside the sources. Its arguments are the
  encoder, the chunk \<open>&block[startChunk]\<close>, its size and \<open>lr\<close>. \<open>newBuffer n\<close> stands for
  the memory that \<open>new byte[n]\<close> returns.

  The loop \<open>while (startChunk < end)\<close> does not end when \<open>sizeChunk \<le> 0\<close>, and
  \<open>encodeChunk\<close> may not return: the result is an option.
\<close>

partial_function (option) encode_chunks ::
  "32 word \<Rightarrow> (ANSRangeEncoder \<Rightarrow> (int \<Rightarrow> 8 word) \<Rightarrow> 32 word \<Rightarrow> int \<Rightarrow> ANSRangeEncoder) \<Rightarrow>
   (int \<Rightarrow> 8 word) \<Rightarrow> 32 word \<Rightarrow> 32 word \<Rightarrow> 32 word \<Rightarrow> ANSRangeEncoder \<Rightarrow> ANSRangeEncoder option"
where
  "encode_chunks ANS_TOP rebuildStatistics block sz end startChunk enc =
     (if sint startChunk < sint end then
        (let sizeChunk = (if sint (startChunk + sz) < sint end then sz else end - startChunk);
             lr = lower_lr (sint (logRange enc)) (sint sizeChunk);
             chunk = (\<lambda>i. block (sint startChunk + i));
             enc1 = rebuildStatistics enc chunk sizeChunk lr
         in Option.bind (encodeChunk ANS_TOP enc1 chunk (sint sizeChunk))
              (encode_chunks ANS_TOP rebuildStatistics block sz end (startChunk + sizeChunk)))
      else Some enc)"

declare encode_chunks.simps [code]

text \<open>The result of \<open>encode\<close> is the value returned and the encoder.\<close>

definition encode ::
  "32 word \<Rightarrow> 32 word \<Rightarrow>
   (ANSRangeEncoder \<Rightarrow> (int \<Rightarrow> 8 word) \<Rightarrow> 32 word \<Rightarrow> int \<Rightarrow> ANSRangeEncoder) \<Rightarrow>
   (32 word \<Rightarrow> int \<Rightarrow> 8 word) \<Rightarrow>
   ANSRangeEncoder \<Rightarrow> (int \<Rightarrow> 8 word) \<Rightarrow> 32 word \<Rightarrow> 32 word \<Rightarrow> (32 word \<times> ANSRangeEncoder) option"
where
  "encode ANS_TOP MAX_CHUNK_SIZE rebuildStatistics newBuffer enc block blkptr len =
     (if len = 0 then Some (0, enc)
      else
        let end = blkptr + len;
            sz0 = (if chunkSize enc = 0 then len else chunkSize enc);
            sz = (if sint sz0 > sint MAX_CHUNK_SIZE then MAX_CHUNK_SIZE else sz0);
            startChunk = blkptr;
            n = sz + signed_drop_bit 3 sz;
            enc0 = (if bufferSize enc < n then enc\<lparr>bufferSize := n, buffer := newBuffer n\<rparr> else enc)
        in Option.bind (encode_chunks ANS_TOP rebuildStatistics block sz end startChunk enc0)
             (\<lambda>enc'. Some (len, enc')))"

section \<open>Notions used to state the properties of the factory\<close>

text \<open>The eight nibbles of a type word, most significant first.\<close>

definition nibbles :: "32 word \<Rightarrow> 32 word list" where
  "nibbles w = map (nibble w) [0..<8]"

text \<open>The canonical name of each assigned identifier \<open>0..10\<close>.\<close>

definition token_name :: "32 word \<Rightarrow> string" where
  "token_name t = [''NONE'', ''BWT'', ''BWTS'', ''LZ4'', ''SNAPPY'', ''RLT'', ''ZRLT'', ''MTFT'',
      ''RANK'', ''X86'', ''TEXT''] ! unat t"

text \<open>Tokens joined with \<open>+\<close>.\<close>

fun join_plus :: "string list \<Rightarrow> string" where
  "join_plus [] = []"
| "join_plus [x] = x"
| "join_plus (x # y # ys) = x @ ''+'' @ join_plus (y # ys)"

text \<open>
  Identifiers packed into consecutive nibbles, the first one into slot \<open>k\<close>
  (slot 0 is bits 28..31).
\<close>

fun packFrom :: "nat \<Rightarrow> 32 word list \<Rightarrow> 32 word" where
  "packFrom k [] = 0"
| "packFrom k (t # ts) = push_bit (28 - 4 * k) t OR packFrom (Suc k) ts"


text \<open>One \<open>append\<close> step of the \<open>StringBuilder\<close> in \<open>getName\<close>.\<close>

definition app_token :: "string \<Rightarrow> string \<Rightarrow> string" where
  "app_token sb name = (if length sb \<noteq> 0 then sb @ ''+'' else sb) @ name"



section \<open>Notions used to state the properties of the Exp-Golomb decoder\<close>

text \<open>
  The documented grammar of one code word: a leading \<open>1\<close> is the value 0; otherwise
  \<open>log2\<close> zero bits, a \<open>1\<close>, and \<open>log2\<close> value bits \<open>low\<close> stand for
  \<open>(1 << log2) - 1 + low\<close>; in signed mode one more bit \<open>sgn\<close> follows and the value is
  \<open>(res - sgn) XOR -sgn\<close>. The arithmetic is that of the integers, and the byte is the
  low 8 bits of the result. A stream that ends inside the code word is an error.
\<close>

definition grammar_decodeByte :: "bool \<Rightarrow> bool list \<Rightarrow> bs_error + (8 word \<times> bool list)" where
  "grammar_decodeByte is_signed bs =
     (let log2 = length (takeWhile Not bs);
          rest = drop (log2 + 1) bs
      in if length bs \<le> log2 then Inl BitStreamException
         else if log2 = 0 then Inr (0, rest)
         else if length rest < (if is_signed then log2 + 1 else log2) then Inl BitStreamException
         else
           let low = bits_value (take log2 rest);
               res = (2 ^ log2 - 1 + int low)
           in if is_signed then
                let sgn = (if rest ! log2 then 1 else 0)
                in Inr (word_of_int ((res - sgn) XOR (- sgn)), drop (log2 + 1) rest)
              else Inr (word_of_int res, drop log2 rest))"

text \<open>
  The number \<open>low\<close> that the grammar reads from the value bits of the first code word of a
  stream, and the condition under which a byte keeps it when the value bits and the sign
  bit are cut to 8 bits together: bit 7 of \<open>low\<close> is zero, or, when \<open>byte\<close> is a signed
  type, equal to bit 6 of \<open>low\<close>. It holds for every \<open>low < 64\<close>, and for every
  \<open>low < 128\<close> when \<open>byte\<close> is unsigned.
\<close>

definition value_bits :: "bool list \<Rightarrow> nat" where
  "value_bits bs =
     (let log2 = length (takeWhile Not bs) in bits_value (take log2 (drop (log2 + 1) bs)))"

definition byte_keeps :: "bool \<Rightarrow> nat \<Rightarrow> bool" where
  "byte_keeps byteIsSigned low =
     (if byteIsSigned then odd (low div 128) = odd (low div 64) else even (low div 128))"

text \<open>The naive loop: \<open>n\<close> times \<open>buf[i] = decodeByte()\<close>, from offset \<open>i\<close> on.\<close>

primrec decode_naive ::
  "bool \<Rightarrow> bool \<Rightarrow> nat \<Rightarrow> nat \<Rightarrow> nat \<Rightarrow> dec_state \<Rightarrow> (bs_error \<times> (nat \<Rightarrow> 8 word)) + dec_state"
where
  "decode_naive byteIsSigned is_signed blkptr 0 i s = Inr s"
| "decode_naive byteIsSigned is_signed blkptr (Suc n) i s =
     and_then (store_decodeByte byteIsSigned is_signed blkptr i s)
       (decode_naive byteIsSigned is_signed blkptr n (Suc i))"

section \<open>Notions used to state the properties of the ANS encoder\<close>

text \<open>The actions \<open>visit k\<close> for the indices \<open>k\<close> of a list, one after the other.\<close>

fun visit_all :: "(nat \<Rightarrow> 's \<Rightarrow> 's option) \<Rightarrow> nat list \<Rightarrow> 's \<Rightarrow> 's option" where
  "visit_all visit [] s = Some s"
| "visit_all visit (k # ks) s = (case visit k s of None \<Rightarrow> None | Some s' \<Rightarrow> visit_all visit ks s')"

text \<open>
  The indices at which \<open>encodeChunk\<close> reads \<open>_symbols\<close> for the chunk \<open>block[0 .. end-1]\<close>,
  in the order of the reads. In order 0: the bytes, from the last to the first. In
  order 1: for each byte but the first, from the last to the second, row \<open>block[j-1]\<close>
  (the byte before it) and column \<open>block[j]\<close>; then, for the first byte, row 0 and column
  \<open>block[0]\<close>.
\<close>

definition chunk_entries :: "32 word \<Rightarrow> (int \<Rightarrow> 8 word) \<Rightarrow> int \<Rightarrow> nat list" where
  "chunk_entries ord block end =
     (if ord = 0 then map (\<lambda>j. unat (block j)) (rev [0 .. end - 1])
      else map (\<lambda>j. unat (push_bit 8 (ucast (block (j - 1)) :: 32 word) OR ucast (block j)))
             (rev [1 .. end - 1])
           @ [unat (block 0)])"

text \<open>
  An example: the chunk \<open>ABCD\<close>, a buffer of 4 bytes, and tables at \<open>logRange = 8\<close> for
  \<open>ANS_TOP = 1 << 23\<close>. In order 0 each of the four bytes has frequency 64. In order 1 the
  first byte in row 0 and each later byte in the row of the byte before it is the only
  symbol of its row, with frequency 256.
\<close>

definition example_block :: "int \<Rightarrow> 8 word" where
  "example_block i = (if i = 0 then 0x41 else if i = 1 then 0x42 else if i = 2 then 0x43 else 0x44)"

definition example_symbols :: "32 word \<Rightarrow> nat \<Rightarrow> ANSEncSymbol" where
  "example_symbols ord idx =
     (if ord = 0 then
        (if idx = 0x41 then reset 0x800000 0 64 8
         else if idx = 0x42 then reset 0x800000 64 64 8
         else if idx = 0x43 then reset 0x800000 128 64 8
         else if idx = 0x44 then reset 0x800000 192 64 8
         else \<lparr>xMax = 0, bias = 0, cmplFreq = 0, invShift = 0, invFreq = 0\<rparr>)
      else
        (if idx = 0x41 \<or> idx = 0x4142 \<or> idx = 0x4243 \<or> idx = 0x4344 then reset 0x800000 0 256 8
         else \<lparr>xMax = 0, bias = 0, cmplFreq = 0, invShift = 0, invFreq = 0\<rparr>))"

definition example_encoder :: "32 word \<Rightarrow> ANSRangeEncoder" where
  "example_encoder ord =
     \<lparr>bitstream = [], order = ord, chunkSize = 0, logRange = 8, alphabet = (\<lambda>_. 0),
      freqs = (\<lambda>_. 0), symbols = example_symbols ord, buffer = (\<lambda>_. 0), bufferSize = 4\<rparr>"

section \<open>Properties of the factory\<close>

lemmas type_defs = NONE_TYPE_def BWT_TYPE_def BWTS_TYPE_def LZ4_TYPE_def SNAPPY_TYPE_def
  RLT_TYPE_def ZRLT_TYPE_def MTFT_TYPE_def RANK_TYPE_def X86_TYPE_def DICT_TYPE_def

lemma word_le_10_cases:
  fixes t :: "32 word"
  assumes "t \<le> 10"
  shows "t = 0 \<or> t = 1 \<or> t = 2 \<or> t = 3 \<or> t = 4 \<or> t = 5 \<or> t = 6 \<or> t = 7 \<or> t = 8 \<or> t = 9 \<or> t = 10"
proof -
  have "unat t \<le> 10" using assms by (simp add: word_le_nat_alt)
  then have d: "unat t = 0 \<or> unat t = 1 \<or> unat t = 2 \<or> unat t = 3 \<or> unat t = 4 \<or> unat t = 5
      \<or> unat t = 6 \<or> unat t = 7 \<or> unat t = 8 \<or> unat t = 9 \<or> unat t = 10" by arith
  have e: "\<And>k. unat t = k \<Longrightarrow> t = word_of_nat k" by auto
  from d show ?thesis
    by (elim disjE) (drule e, simp)+
qed

lemma nibble_and: "nibble w i AND 0x0F = nibble w i"
  by (simp add: nibble_def and.assoc)

lemma getNameToken_ok:
  assumes "nibble w i \<le> 10"
  shows "getNameToken (drop_bit (28 - 4 * i) w) = Inr (token_name (nibble w i))"
  using word_le_10_cases[OF assms]
  by (elim disjE) (simp_all add: getNameToken_def nibble_def[symmetric] type_defs token_name_def)

lemma getTypeToken_token_name:
  assumes "(t::32 word) \<le> 10"
  shows "getTypeToken (token_name t) = Inr t"
  using word_le_10_cases[OF assms]
  by (elim disjE) (simp_all add: getTypeToken_def type_defs token_name_def toUpperCase_def upper_char_def)

lemma token_name_plain:
  assumes "(t::32 word) \<le> 10"
  shows "token_name t \<noteq> [] \<and> CHR ''+'' \<notin> set (token_name t)"
  using word_le_10_cases[OF assms]
  by (elim disjE) (simp_all add: token_name_def)

lemma newFunctionToken_ok:
  assumes "(t::32 word) \<le> 10"
  shows "\<exists>tr. newFunctionToken ctx t = Inr tr"
  using word_le_10_cases[OF assms]
  by (elim disjE) (simp_all add: newFunctionToken_def type_defs)

subsection \<open>Splitting a joined name\<close>

lemma pieces_nonempty: "pieces c s \<noteq> []"
  by (induction s) auto

lemma pieces_no_sep: "c \<notin> set s \<Longrightarrow> pieces c s = [s]"
  by (induction s) auto

lemma pieces_append: "c \<notin> set s \<Longrightarrow> pieces c (s @ c # rest) = s # pieces c rest"
  by (induction s) auto

lemma pieces_join:
  "ns \<noteq> [] \<Longrightarrow> \<forall>n\<in>set ns. CHR ''+'' \<notin> set n \<Longrightarrow> pieces CHR ''+'' (join_plus ns) = ns"
proof (induction ns rule: join_plus.induct)
  case 1 then show ?case by simp
next
  case (2 x) then show ?case by (simp add: pieces_no_sep)
next
  case (3 x y ys)
  then show ?case using pieces_append[of "CHR ''+''" x "join_plus (y # ys)"] by simp
qed

lemma plus_in_join:
  "\<forall>n\<in>set ns. CHR ''+'' \<notin> set n \<Longrightarrow> CHR ''+'' \<in> set (join_plus ns) \<longleftrightarrow> 2 \<le> length ns"
  by (induction ns rule: join_plus.induct) auto

lemma split_plus_join:
  assumes "ns \<noteq> []" "\<forall>n\<in>set ns. n \<noteq> [] \<and> CHR ''+'' \<notin> set n"
  shows "split_plus (join_plus ns) = ns"
proof (cases "2 \<le> length ns")
  case True
  have "last ns \<noteq> []" using assms by simp
  then have "dropWhile (\<lambda>t. t = []) (rev ns) = rev ns"
    using assms(1) by (cases "rev ns") (auto simp: last_rev[symmetric] simp del: last_rev)
  then show ?thesis using True assms plus_in_join[of ns] pieces_join[of ns]
    by (simp add: split_plus_def)
next
  case False
  then obtain n where "ns = [n]" using assms(1) by (cases ns; cases "tl ns") auto
  then show ?thesis using assms by (simp add: split_plus_def)
qed

subsection \<open>The name of a type word\<close>

lemma getName_loop_eq:
  assumes "\<forall>i\<in>set is. nibble w i \<le> 10"
  shows "getName_loop w is sb =
     Inr (foldl app_token sb (map token_name (filter (\<lambda>t. t \<noteq> 0) (map (nibble w) is))))"
  using assms
proof (induction "is" arbitrary: sb)
  case Nil then show ?case by simp
next
  case (Cons i "is")
  then show ?case
    by (simp add: Let_def getNameToken_ok nibble_def[symmetric] NONE_TYPE_def app_token_def)
qed

lemma foldl_app_token:
  "sb \<noteq> [] \<Longrightarrow> foldl app_token sb ns = join_plus (sb # ns)"
proof (induction ns arbitrary: sb)
  case Nil then show ?case by simp
next
  case (Cons n ns)
  have "foldl app_token sb (n # ns) = foldl app_token (sb @ ''+'' @ n) ns"
    using Cons.prems by (simp add: app_token_def)
  also have "\<dots> = join_plus ((sb @ ''+'' @ n) # ns)" using Cons.IH[of "sb @ ''+'' @ n"] by simp
  also have "\<dots> = join_plus (sb # n # ns)" by (cases ns) simp_all
  finally show ?case .
qed

lemma foldl_app_token_names:
  assumes "\<forall>n\<in>set ns. n \<noteq> []"
  shows "foldl app_token [] ns = join_plus ns"
proof (cases ns)
  case Nil then show ?thesis by simp
next
  case (Cons n ns')
  then have "foldl app_token [] ns = foldl app_token n ns'" by (simp add: app_token_def)
  then show ?thesis using foldl_app_token[of n ns'] assms Cons by simp
qed

lemma getName_eq:
  assumes "\<forall>t\<in>set (nibbles w). t \<le> 10"
  shows "getName w =
     Inr (if filter (\<lambda>t. t \<noteq> 0) (nibbles w) = [] then ''NONE''
          else join_plus (map token_name (filter (\<lambda>t. t \<noteq> 0) (nibbles w))))"
proof -
  let ?ts = "filter (\<lambda>t. t \<noteq> 0) (nibbles w)"
  have a: "\<forall>i\<in>set [0..<8]. nibble w i \<le> 10" using assms by (simp add: nibbles_def)
  have n: "\<forall>n\<in>set (map token_name ?ts). n \<noteq> []"
    using assms token_name_plain by auto
  have l: "getName_loop w [0..<8] [] = Inr (join_plus (map token_name ?ts))"
    using getName_loop_eq[OF a, of "[]"] foldl_app_token_names[OF n] by (simp add: nibbles_def)
  have e: "join_plus (map token_name ?ts) = [] \<longleftrightarrow> ?ts = []"
  proof (cases ?ts)
    case Nil then show ?thesis by simp
  next
    case (Cons t ts')
    then have "t \<in> set (nibbles w)" by (metis filter_is_subset list.set_intros(1) subsetD)
    then have "token_name t \<noteq> []" using assms token_name_plain by blast
    then show ?thesis using Cons by (cases ts') simp_all
  qed
  show ?thesis unfolding getName_def l using e
    by (simp add: getNameToken_def type_defs)
qed


subsection \<open>Packing the tokens of a name\<close>

lemma getType_loop_pack:
  assumes "\<forall>t\<in>set ts. t \<le> 10" "k + length (filter (\<lambda>t. t \<noteq> 0) ts) \<le> 8"
  shows "getType_loop (map token_name ts) res (28 - 4 * int k) =
           Inr (res OR packFrom k (filter (\<lambda>t. t \<noteq> 0) ts))"
  using assms
proof (induction ts arbitrary: res k)
  case Nil then show ?case by simp
next
  case (Cons t ts)
  show ?case
  proof (cases "t = 0")
    case True
    then show ?thesis using Cons by (simp add: getTypeToken_token_name NONE_TYPE_def)
  next
    case False
    then have k: "k \<le> 7" using Cons.prems by simp
    then have m: "nat ((28 - 4 * int k) mod 32) = 28 - 4 * k" "nat (28 - 4 * int k) = 28 - 4 * k"
      by simp_all
    have s: "28 - 4 * int k - 4 = 28 - 4 * int (Suc k)" by simp
    have "getType_loop (map token_name (t # ts)) res (28 - 4 * int k) =
          getType_loop (map token_name ts) (res OR push_bit (28 - 4 * k) t) (28 - 4 * int (Suc k))"
      using False Cons.prems by (simp add: getTypeToken_token_name NONE_TYPE_def m s del: of_nat_Suc)
    also have "\<dots> = Inr ((res OR push_bit (28 - 4 * k) t) OR packFrom (Suc k) (filter (\<lambda>t. t \<noteq> 0) ts))"
      using Cons.IH[of "Suc k" "res OR push_bit (28 - 4 * k) t"] Cons.prems False by simp
    finally show ?thesis using False by (simp add: or.assoc)
  qed
qed

lemma getType_join:
  assumes "ts \<noteq> []" "length ts \<le> 8" "\<forall>t\<in>set ts. t \<le> 10"
  shows "getType (join_plus (map token_name ts)) = Inr (packFrom 0 (filter (\<lambda>t. t \<noteq> 0) ts))"
proof -
  let ?ns = "map token_name ts"
  have p: "\<forall>n\<in>set ?ns. n \<noteq> [] \<and> CHR ''+'' \<notin> set n" using assms(3) token_name_plain by auto
  then have p': "\<forall>n\<in>set ?ns. CHR ''+'' \<notin> set n" by blast
  have l: "length (filter (\<lambda>t. t \<noteq> 0) ts) \<le> 8"
    using assms(2) length_filter_le[of "\<lambda>t. t \<noteq> 0" ts] by linarith
  show ?thesis
  proof (cases "2 \<le> length ts")
    case True
    then have "CHR ''+'' \<in> set (join_plus ?ns)" using plus_in_join[OF p'] by simp
    moreover have "split_plus (join_plus ?ns) = ?ns" using split_plus_join[OF _ p] assms(1) by simp
    ultimately show ?thesis
      using assms getType_loop_pack[OF assms(3), of 0 0] l True
      by (simp add: getType_def Let_def)
  next
    case False
    then obtain t where t: "ts = [t]" using assms(1) by (cases ts; cases "tl ts") auto
    then have "CHR ''+'' \<notin> set (join_plus ?ns)" using p by simp
    then show ?thesis using t assms(3) by (simp add: getType_def getTypeToken_token_name)
  qed
qed

subsection \<open>The nibbles of a packed word\<close>

lemma lt16_bits: "(t::32 word) < 16 \<Longrightarrow> bit t n \<Longrightarrow> n < 4"
proof -
  assume a: "t < 16" "bit t n"
  have "t AND mask 4 = t" using a(1) less_mask_eq[of t 4] by simp
  then have "bit (t AND mask 4) n" using a(2) by simp
  then show "n < 4" by (simp add: bit_simps)
qed

lemma nibble_push_bit:
  assumes "(t::32 word) < 16" "k < 8" "j < 8"
  shows "nibble (push_bit (28 - 4 * k) t) j = (if j = k then t else 0)"
proof -
  have m: "(0x0F :: 32 word) = mask 4" by (simp add: mask_eq_exp_minus_1)
  show ?thesis unfolding m nibble_def
    apply (rule bit_word_eqI)
    using assms
    apply (auto simp add: bit_simps dest: lt16_bits[OF assms(1)])
    done
qed

lemma nibble_or: "nibble (a OR b) j = nibble a j OR nibble b j"
  by (simp add: nibble_def bit.conj_disj_distrib2 drop_bit_or)

lemma nibble_0: "nibble 0 j = 0"
  by (simp add: nibble_def)

lemma nibble_packFrom:
  assumes "k + length ts \<le> 8" "\<forall>t\<in>set ts. t < 16" "j < 8"
  shows "nibble (packFrom k ts) j = (if k \<le> j \<and> j < k + length ts then ts ! (j - k) else 0)"
  using assms
proof (induction ts arbitrary: k)
  case Nil then show ?case by (auto simp: nibble_0)
next
  case (Cons t ts)
  have k: "k < 8" using Cons.prems by simp
  have t: "t < 16" using Cons.prems by simp
  have ih: "nibble (packFrom (Suc k) ts) j =
        (if Suc k \<le> j \<and> j < Suc k + length ts then ts ! (j - Suc k) else 0)"
    using Cons.IH[of "Suc k"] Cons.prems by simp
  show ?case
    unfolding packFrom.simps nibble_or nibble_push_bit[OF t k \<open>j < 8\<close>] ih
    by (auto simp: nth_Cons')
qed

lemma nibbles_packFrom:
  assumes "length ts \<le> 8" "\<forall>t\<in>set ts. t < 16"
  shows "nibbles (packFrom 0 ts) = take 8 (ts @ replicate 8 0)"
proof (rule nth_equalityI)
  show "length (nibbles (packFrom 0 ts)) = length (take 8 (ts @ replicate 8 0))"
    by (simp add: nibbles_def)
next
  fix j assume "j < length (nibbles (packFrom 0 ts))"
  then have j: "j < 8" by (simp add: nibbles_def)
  then have "nibbles (packFrom 0 ts) ! j = nibble (packFrom 0 ts) j" by (simp add: nibbles_def)
  also have "\<dots> = (if j < length ts then ts ! j else 0)"
    using nibble_packFrom[of 0 ts j] assms j by simp
  also have "\<dots> = take 8 (ts @ replicate 8 0) ! j" using j by (simp add: nth_append)
  finally show "nibbles (packFrom 0 ts) ! j = take 8 (ts @ replicate 8 0) ! j" .
qed

lemma length_nibbles: "length (nibbles w) = 8"
  by (simp add: nibbles_def)

subsection \<open>Formatting then parsing\<close>

text \<open>
  Claim C2. For every type word \<open>w\<close> all of whose nibbles are in \<open>0..10\<close>, \<open>getName\<close>
  succeeds and \<open>getType\<close> of the name is \<open>w\<close> with its zero nibbles deleted and the others
  packed from bit 28 downward. More generally the parse of any one to eight canonical token
  names joined by \<open>+\<close> packs the identifiers other than \<open>NONE\<close>, so \<open>NONE\<close> tokens do not
  change the word and an all-\<open>NONE\<close> name packs to \<open>packFrom 0 [] = 0\<close>. The third part
  says what \<open>packFrom 0\<close> is: the word whose nibbles are the given ones, then zeros.
\<close>

theorem getType_getName_roundtrip:
  "((\<forall>t\<in>set (nibbles w). t \<le> 10) \<longrightarrow>
      (\<exists>name. getName w = Inr name \<and>
         getType name = Inr (packFrom 0 (filter (\<lambda>t. t \<noteq> 0) (nibbles w))))) \<and>
   (ts \<noteq> [] \<and> length ts \<le> 8 \<and> (\<forall>t\<in>set ts. t \<le> 10) \<longrightarrow>
      getType (join_plus (map token_name ts)) = Inr (packFrom 0 (filter (\<lambda>t. t \<noteq> 0) ts))) \<and>
   (length us \<le> 8 \<and> (\<forall>t\<in>set us. t < 16) \<longrightarrow>
      nibbles (packFrom 0 us) = take 8 (us @ replicate 8 0))"
proof (intro conjI impI)
  assume a: "\<forall>t\<in>set (nibbles w). t \<le> 10"
  let ?ts = "filter (\<lambda>t. t \<noteq> 0) (nibbles w)"
  have le: "length ?ts \<le> 8" using length_filter_le[of _ "nibbles w"] by (simp add: length_nibbles)
  have v: "\<forall>t\<in>set ?ts. t \<le> 10" using a by simp
  have f: "filter (\<lambda>t. t \<noteq> 0) ?ts = ?ts" by simp
  show "\<exists>name. getName w = Inr name \<and> getType name = Inr (packFrom 0 ?ts)"
  proof (cases "?ts = []")
    case True
    have "getType ''NONE'' = Inr 0"
      by (simp add: getType_def getTypeToken_def toUpperCase_def upper_char_def type_defs)
    then show ?thesis using getName_eq[OF a] True by simp
  next
    case False
    have "getType (join_plus (map token_name ?ts)) = Inr (packFrom 0 ?ts)"
      using getType_join[OF False le v] f by simp
    then show ?thesis using getName_eq[OF a] False by simp
  qed
next
  assume "ts \<noteq> [] \<and> length ts \<le> 8 \<and> (\<forall>t\<in>set ts. t \<le> 10)"
  then show "getType (join_plus (map token_name ts)) = Inr (packFrom 0 (filter (\<lambda>t. t \<noteq> 0) ts))"
    using getType_join[of ts] by blast
next
  assume "length us \<le> 8 \<and> (\<forall>t\<in>set us. t < 16)"
  then show "nibbles (packFrom 0 us) = take 8 (us @ replicate 8 0)"
    using nibbles_packFrom[of us] by blast
qed

text \<open>
  The theorem at \<open>w = 0x10702006\<close> (BWT, MTFT, BWTS, ZRLT in slots 0, 2, 4, 7), at the name
  \<open>NONE+BWT+NONE+MTFT\<close> and at the identifiers 1, 7, 2, 6.
\<close>

theorem getType_getName_roundtrip_witness:
  "(\<exists>name. getName 0x10702006 = Inr name \<and> getType name = Inr 0x17260000) \<and>
   getType ''NONE+BWT+NONE+MTFT'' = Inr 0x17000000 \<and>
   nibbles 0x17260000 = [1, 7, 2, 6, 0, 0, 0, 0]"
proof -
  have n: "nibbles 0x10702006 = [1, 0, 7, 0, 2, 0, 0, 6]" by code_simp
  have p: "packFrom 0 [1, 7, 2, 6] = 0x17260000" "packFrom 0 [1, 7] = 0x17000000" by code_simp+
  have j: "join_plus (map token_name [0, 1, 0, 7]) = ''NONE+BWT+NONE+MTFT''"
    by (simp add: token_name_def)
  have r: "take 8 ([1, 7, 2, 6] @ replicate 8 0) = [1, 7, 2, 6, 0, 0, 0, 0 :: 32 word]"
    by code_simp
  have h1: "\<forall>t\<in>set (nibbles 0x10702006). t \<le> 10" by (simp add: n)
  have h2: "[0, 1, 0, 7 :: 32 word] \<noteq> [] \<and> length [0, 1, 0, 7 :: 32 word] \<le> 8 \<and>
      (\<forall>t\<in>set [0, 1, 0, 7 :: 32 word]. t \<le> 10)" by simp
  have h3: "length [1, 7, 2, 6 :: 32 word] \<le> 8 \<and> (\<forall>t\<in>set [1, 7, 2, 6 :: 32 word]. t < 16)"
    by simp
  have f: "filter (\<lambda>t. t \<noteq> 0) [1, 0, 7, 0, 2, 0, 0, 6 :: 32 word] = [1, 7, 2, 6]"
    "filter (\<lambda>t. t \<noteq> 0) [0, 1, 0, 7 :: 32 word] = [1, 7]" by simp_all
  from getType_getName_roundtrip[of "0x10702006" "[0, 1, 0, 7]" "[1, 7, 2, 6]"] h1 h2 h3
  have "(\<exists>name. getName 0x10702006 = Inr name \<and>
           getType name = Inr (packFrom 0 (filter (\<lambda>t. t \<noteq> 0) (nibbles 0x10702006)))) \<and>
        getType (join_plus (map token_name [0, 1, 0, 7])) =
          Inr (packFrom 0 (filter (\<lambda>t. t \<noteq> 0) [0, 1, 0, 7])) \<and>
        nibbles (packFrom 0 [1, 7, 2, 6]) = take 8 ([1, 7, 2, 6] @ replicate 8 0)"
    by blast
  then show ?thesis unfolding n f p j r .
qed

subsection \<open>Rejected names\<close>









lemma upt8: "[0..<8] = [0,1,2,3,4,5,6,7]"
  by code_simp



subsection \<open>Instantiation\<close>

lemma newFunction_fill_all:
  assumes "\<forall>i\<in>set is. nibble w i \<noteq> 0 \<and> nibble w i \<le> 10"
  shows "\<exists>trs. newFunction_fill ctx w is filled = Inr (filled @ trs) \<and>
           map (newFunctionToken ctx) (map (nibble w) is) = map Inr trs"
  using assms
proof (induction "is" arbitrary: filled)
  case Nil then show ?case by simp
next
  case (Cons i "is")
  then obtain tr where tr: "newFunctionToken ctx (nibble w i) = Inr tr"
    using newFunctionToken_ok[of "nibble w i" ctx] by auto
  obtain trs where trs: "newFunction_fill ctx w is (filled @ [tr]) = Inr ((filled @ [tr]) @ trs)"
      "map (newFunctionToken ctx) (map (nibble w) is) = map Inr trs"
    using Cons.IH[of "filled @ [tr]"] Cons.prems by auto
  have "newFunction_fill ctx w (i # is) filled = Inr (filled @ tr # trs)"
    using Cons.prems tr trs(1) by (simp add: NONE_TYPE_def)
  moreover have "map (newFunctionToken ctx) (map (nibble w) (i # is)) = map Inr (tr # trs)"
    using tr trs(2) by simp
  ultimately show ?case by blast
qed

lemma nibbles_nth: "i < 8 \<Longrightarrow> nibbles w ! i = nibble w i"
  by (simp add: nibbles_def)

text \<open>
  On a type word whose nibbles are the identifiers \<open>ts\<close>, all in \<open>1..10\<close>, in its leading
  slots and zero in every slot after them (the words that \<open>getType\<close> packs),
  \<open>newFunction\<close> returns one transform per identifier, in slot order, each the one that
  \<open>newFunctionToken\<close> instantiates for it; when every nibble is zero it returns the single
  null transform.
\<close>

lemma newFunction_packed:
  assumes "nibbles w = ts @ replicate (8 - length ts) 0"
      and "\<forall>t\<in>set ts. t \<noteq> 0 \<and> t \<le> 10"
  shows "\<exists>trs. newFunction ctx w = Inr (map Some trs) \<and>
           map (newFunctionToken ctx) (if ts = [] then [NONE_TYPE] else ts) = map Inr trs"
proof -
  have len: "length ts \<le> 8"
    using arg_cong[OF assms(1), of length] by (simp add: length_nibbles)
  have nth: "nibble w i = (if i < length ts then ts ! i else 0)" if "i < 8" for i
  proof -
    have "nibble w i = (ts @ replicate (8 - length ts) 0) ! i"
      using nibbles_nth[OF that, of w] assms(1) by simp
    then show ?thesis using that by (simp add: nth_append)
  qed
  have cnt: "length (filter (\<lambda>i. nibble w i \<noteq> NONE_TYPE) [0..<8]) = length ts"
  proof -
    have "length (filter (\<lambda>i. nibble w i \<noteq> NONE_TYPE) [0..<8]) =
          length (filter (\<lambda>t. t \<noteq> 0) (nibbles w))"
      by (simp add: nibbles_def filter_map comp_def NONE_TYPE_def)
    also have "\<dots> = length ts" using assms by (simp add: filter_id_conv)
    finally show ?thesis .
  qed
  show ?thesis
  proof (cases "ts = []")
    case True
    then have "nibble w 0 = 0" using nth[of 0] by simp
    then have "newFunction_fill ctx w [0..<1] [] = Inr [NullFunction]"
      by (simp add: newFunctionToken_def type_defs)
    then have "newFunction ctx w = Inr (map Some [NullFunction])"
      using True cnt by (simp add: newFunction_def)
    moreover have "map (newFunctionToken ctx) [NONE_TYPE] = map Inr [NullFunction]"
      by (simp add: newFunctionToken_def type_defs)
    ultimately show ?thesis using True by (intro exI[of _ "[NullFunction]"]) simp
  next
    case False
    have m: "map (nibble w) [0..<length ts] = ts"
      using nth len by (intro nth_equalityI) simp_all
    have "\<forall>i\<in>set [0..<length ts]. nibble w i \<noteq> 0 \<and> nibble w i \<le> 10"
      using nth len assms(2) by simp
    from newFunction_fill_all[OF this, of ctx "[]"] obtain trs where
      trs: "newFunction_fill ctx w [0..<length ts] [] = Inr trs"
           "map (newFunctionToken ctx) ts = map Inr trs"
      unfolding m by auto
    have "length trs = length ts" using arg_cong[OF trs(2), of length] by simp
    then have "newFunction ctx w = Inr (map Some trs)"
      using False cnt trs(1) by (simp add: newFunction_def)
    then show ?thesis using False trs(2) by auto
  qed
qed

text \<open>
  Claim C1 at the word \<open>0x01000000\<close>. Its only non-zero nibble, in slot 1 after a leading
  zero nibble, is the identifier of BWT, and \<open>getName\<close> formats the word as \<open>BWT\<close>; one
  transform per non-zero nibble is the BWT codec alone. \<open>newFunction\<close> returns the null
  transform alone: the array has one slot for the one non-zero nibble, the second loop
  runs over the first \<open>transforms.length\<close> slots only, and in slot 0 it instantiates the
  zero nibble because \<open>i == 0\<close>.
\<close>

theorem newFunction_leading_zero_nibble:
  "newFunction (Map.empty :: string \<rightharpoonup> string) 0x01000000 = Inr [Some NullFunction] \<and>
   getName 0x01000000 = Inr ''BWT''"
  by (simp add: newFunction_def nibble_def upt8 NONE_TYPE_def newFunctionToken_def type_defs
      getName_def getNameToken_def)

text \<open>
  With a zero nibble between two identifiers the same loop leaves a slot of the array
  unwritten: for \<open>0x10700000\<close> (\<open>BWT\<close>, an unused slot, \<open>MTFT\<close>) the array is the BWT codec
  and \<open>null\<close>.
\<close>

lemma newFunction_zero_nibble_between:
  "newFunction (Map.empty :: string \<rightharpoonup> string) 0x10700000 = Inr [Some BWTBlockCodec, None]"
  by (simp add: newFunction_def nibble_def upt8 NONE_TYPE_def newFunctionToken_def type_defs)

text \<open>
  Claim C5 at the word \<open>0x0000000B\<close>: its last nibble is the reserved identifier 11, and
  \<open>newFunction\<close> returns the null transform instead of raising. The second loop runs over
  the first \<open>transforms.length\<close> slots only, so it never reads slot 7.
\<close>

theorem newFunction_reserved_last_nibble:
  "newFunction (Map.empty :: string \<rightharpoonup> string) 0x0000000B = Inr [Some NullFunction]"
  by (simp add: newFunction_def nibble_def upt8 NONE_TYPE_def newFunctionToken_def type_defs)
section \<open>Properties of the Exp-Golomb decoder\<close>

subsection \<open>One code word\<close>

lemma bits_value_snoc: "bits_value (xs @ [b]) = 2 * bits_value xs + (if b then 1 else 0)"
  by (simp add: bits_value_def)

lemma bits_value_bound: "bits_value xs < 2 ^ length xs"
  by (induction xs rule: rev_induct) (auto simp: bits_value_snoc bits_value_def)

lemma bits_value_take_Suc:
  "n < length xs \<Longrightarrow> bits_value (take (Suc n) xs) = 2 * bits_value (take n xs) + (if xs ! n then 1 else 0)"
  by (simp add: take_Suc_conv_app_nth bits_value_snoc)

lemma zero_run_eq:
  "zero_run k bs =
     (if length bs \<le> length (takeWhile Not bs) then Inl BitStreamException
      else Inr (k + length (takeWhile Not bs), drop (length (takeWhile Not bs) + 1) bs))"
proof (induction bs arbitrary: k)
  case Nil
  show ?case by (subst zero_run.simps) (simp add: readBit_def)
next
  case (Cons b bs)
  show ?case by (subst zero_run.simps) (simp add: readBit_def Cons)
qed

lemma one_shl_eq: "log2 < 32 \<Longrightarrow> one_shl log2 = 2 ^ log2"
  by (simp add: one_shl_def)

lemma ucast_32_8_of_int: "(ucast (word_of_int x :: 32 word) :: 8 word) = word_of_int x"
  apply (rule bit_word_eqI)
  apply (auto simp: bit_simps)
  done

lemma unsigned_value:
  assumes "log2 < 32"
  shows "(ucast (one_shl log2 - 1) + word_of_nat v :: 8 word) = word_of_int (2 ^ log2 - 1 + int v)"
proof -
  have "one_shl log2 - 1 = (word_of_int (2 ^ log2 - 1) :: 32 word)"
    using assms by (simp add: one_shl_eq)
  then have "(ucast (one_shl log2 - 1) + word_of_nat v :: 8 word) =
      word_of_int (2 ^ log2 - 1) + word_of_int (int v)"
    by (simp only: ucast_32_8_of_int) simp
  then show ?thesis by simp
qed

lemma and_1_of_nat: "(word_of_nat v :: 8 word) AND 1 = word_of_nat (v mod 2)"
  by (metis and_one_eq of_nat_1 of_nat_and_eq)

lemma word8_eq_bits: "((x :: 8 word) = y) = (\<forall>n. bit x n = bit y n)"
  by (auto intro: bit_eqI)

lemma shift_right_1_iff:
  "shift_right_1 b (word_of_nat v :: 8 word) = word_of_nat (v div 2) \<longleftrightarrow> byte_keeps b (v div 2)"
proof -
  have b7: "odd (v div 2 div 128) = bit v 8" "odd (v div 2 div 64) = bit v 7"
    by (simp_all add: bit_iff_odd div_mult2_eq[symmetric])
  have r: "\<And>n. bit (word_of_nat (v div 2) :: 8 word) n = (n < 8 \<and> bit v (Suc n))"
    by (simp add: bit_simps bit_Suc)
  show ?thesis
  proof (cases b)
    case True
    have l: "\<And>n. bit (signed_drop_bit 1 (word_of_nat v :: 8 word)) n =
        (n < 8 \<and> bit v (if n = 7 then 7 else Suc n))"
      by (auto simp add: bit_simps bit_signed_drop_bit_iff)
    have "(signed_drop_bit 1 (word_of_nat v :: 8 word) = word_of_nat (v div 2)) =
        (\<forall>n. (n < 8 \<and> bit v (if n = 7 then 7 else Suc n)) = (n < 8 \<and> bit v (Suc n)))"
      by (simp only: word8_eq_bits l r)
    also have "\<dots> = (bit v 7 = bit v 8)"
    proof
      assume a: "\<forall>n. (n < 8 \<and> bit v (if n = 7 then 7 else Suc n)) = (n < 8 \<and> bit v (Suc n))"
      from spec[OF a, of 7] show "bit v 7 = bit v 8" by simp
    next
      assume "bit v 7 = bit v 8"
      then show "\<forall>n. (n < 8 \<and> bit v (if n = 7 then 7 else Suc n)) = (n < 8 \<and> bit v (Suc n))"
        by simp
    qed
    finally show ?thesis using True by (simp add: shift_right_1_def byte_keeps_def b7 eq_commute)
  next
    case False
    have l: "\<And>n. bit (drop_bit 1 (word_of_nat v :: 8 word)) n = (n < 7 \<and> bit v (Suc n))"
      by (auto simp add: bit_simps)
    have "(drop_bit 1 (word_of_nat v :: 8 word) = word_of_nat (v div 2)) =
        (\<forall>n. (n < 7 \<and> bit v (Suc n)) = (n < 8 \<and> bit v (Suc n)))"
      by (simp only: word8_eq_bits l r)
    also have "\<dots> = (\<not> bit v 8)"
    proof
      assume a: "\<forall>n. (n < 7 \<and> bit v (Suc n)) = (n < 8 \<and> bit v (Suc n))"
      from spec[OF a, of 7] show "\<not> bit v 8" by simp
    next
      assume n: "\<not> bit v 8"
      show "\<forall>n. (n < 7 \<and> bit v (Suc n)) = (n < 8 \<and> bit v (Suc n))"
      proof
        fix n show "(n < 7 \<and> bit v (Suc n)) = (n < 8 \<and> bit v (Suc n))"
          using n by (cases "n = 7") auto
      qed
    qed
    finally have c: "(drop_bit 1 (word_of_nat v :: 8 word) = word_of_nat (v div 2)) = (\<not> bit v 8)" .
    have "even (v div 2 div 128) = (\<not> bit v 8)" using b7(1) by blast
    then show ?thesis using False c by (simp add: shift_right_1_def byte_keeps_def)
  qed
qed

lemma xor_cancel_right: "(a XOR k = b XOR k) = (a = (b :: 8 word))"
proof
  assume e: "a XOR k = b XOR k"
  have "a = (a XOR k) XOR k" by (simp add: xor.assoc)
  also have "\<dots> = (b XOR k) XOR k" by (simp only: e)
  also have "\<dots> = b" by (simp add: xor.assoc)
  finally show "a = b" .
qed simp

lemma signed_value_iff:
  assumes "log2 < 32"
  shows "((let res0 = (word_of_nat v :: 8 word);
              sgn = res0 AND 1;
              res = shift_right_1 byteIsSigned res0 + ucast (one_shl log2) - 1
          in (res - sgn) XOR (- sgn))
         = word_of_int (((2 ^ log2 - 1 + int (v div 2)) - int (v mod 2)) XOR (- int (v mod 2))))
     \<longleftrightarrow> byte_keeps byteIsSigned (v div 2)"
proof -
  have a: "(ucast (one_shl log2) :: 8 word) = word_of_int (2 ^ log2)"
  proof -
    have "one_shl log2 = (word_of_int (2 ^ log2) :: 32 word)" using assms by (simp add: one_shl_eq)
    then show ?thesis by (simp only: ucast_32_8_of_int)
  qed
  have g: "(word_of_nat (v div 2) + word_of_int (2 ^ log2) - 1 - word_of_nat (v mod 2) :: 8 word) XOR
           (- word_of_nat (v mod 2))
        = word_of_int (((2 ^ log2 - 1 + int (v div 2)) - int (v mod 2)) XOR (- int (v mod 2)))"
    unfolding of_int_xor_eq by (simp add: algebra_simps)
  have "((shift_right_1 byteIsSigned (word_of_nat v :: 8 word) + word_of_int (2 ^ log2) - 1
            - word_of_nat (v mod 2)) XOR (- word_of_nat (v mod 2))
         = (word_of_nat (v div 2) + word_of_int (2 ^ log2) - 1 - word_of_nat (v mod 2) :: 8 word) XOR
           (- word_of_nat (v mod 2)))
       = (shift_right_1 byteIsSigned (word_of_nat v :: 8 word) = word_of_nat (v div 2))"
    unfolding xor_cancel_right by simp
  then show ?thesis
    unfolding Let_def and_1_of_nat a g[symmetric] shift_right_1_iff .
qed

lemma decodeByte_zero_first:
  "decodeByte byteIsSigned is_signed (False # r) =
     (let l = length (takeWhile Not r); log2 = l + 1; rest = drop (l + 1) r in
      if length r \<le> l then Inl BitStreamException
      else if is_signed then
        (case readBits (log2 + 1) rest of
           Inl e \<Rightarrow> Inl e
         | Inr (v, bs3) \<Rightarrow>
             let res0 = (word_of_nat v :: 8 word);
                 sgn = res0 AND 1;
                 res = shift_right_1 byteIsSigned res0 + ucast (one_shl log2) - 1
             in Inr ((res - sgn) XOR (- sgn), bs3))
      else
        (case readBits log2 rest of
           Inl e \<Rightarrow> Inl e
         | Inr (v, bs3) \<Rightarrow> Inr (ucast (one_shl log2 - 1) + word_of_nat v, bs3)))"
  by (simp add: decodeByte_def readBit_def zero_run_eq Let_def)

text \<open>
  A byte keeps every \<open>low < 64\<close>, and every \<open>low < 128\<close> when \<open>byte\<close> is unsigned; the value
  bits of a code word with a zero run of length \<open>log2\<close> are a number below \<open>1 << log2\<close>. So
  the value bits are kept for every zero run of length at most 6, and at most 7 when
  \<open>byte\<close> is unsigned.
\<close>

lemma byte_keeps_small:
  "low < (if byteIsSigned then 64 else 128) \<Longrightarrow> byte_keeps byteIsSigned low"
  by (simp add: byte_keeps_def split: if_splits)

lemma value_bits_bound: "value_bits bs < 2 ^ length (takeWhile Not bs)"
proof -
  define log2 where "log2 = length (takeWhile Not bs)"
  have "bits_value (take log2 (drop (log2 + 1) bs)) < 2 ^ length (take log2 (drop (log2 + 1) bs))"
    by (rule bits_value_bound)
  also have "\<dots> \<le> 2 ^ log2" by (intro power_increasing) simp_all
  finally show ?thesis by (simp add: value_bits_def log2_def Let_def)
qed

lemma byte_keeps_short_run:
  assumes "length (takeWhile Not bs) \<le> (if byteIsSigned then 6 else 7)"
  shows "byte_keeps byteIsSigned (value_bits bs)"
proof -
  have "(2::nat) ^ length (takeWhile Not bs) \<le> 2 ^ (if byteIsSigned then 6 else 7)"
    using assms by (intro power_increasing) simp_all
  then have "value_bits bs < 2 ^ (if byteIsSigned then 6 else 7)"
    using value_bits_bound[of bs] by linarith
  then have "value_bits bs < (if byteIsSigned then 64 else 128)" by (simp split: if_splits)
  then show ?thesis by (rule byte_keeps_small)
qed

text \<open>
  Claim C7, as the code has it. On every bit stream whose leading run of zero bits has
  length \<open>log2\<close> at most 30, \<open>decodeByte\<close> follows the documented grammar in unsigned mode:
  a first bit \<open>1\<close> gives 0, otherwise the result is the low 8 bits of
  \<open>(1 << log2) - 1 + low\<close>, and a stream that ends inside the code word raises. In signed
  mode, where the grammar negates by \<open>(res - sgn) XOR -sgn\<close>, it follows the grammar on a
  complete code word exactly when the byte keeps the value bits: bit 7 of \<open>low\<close> is zero,
  or equal to bit 6 of \<open>low\<close> when \<open>byte\<close> is a signed type.
\<close>

theorem decodeByte_grammar:
  assumes "length (takeWhile Not bs) \<le> 30"
  shows "decodeByte byteIsSigned is_signed bs = grammar_decodeByte is_signed bs \<longleftrightarrow>
     (is_signed \<and> grammar_decodeByte is_signed bs \<noteq> Inl BitStreamException \<longrightarrow>
        byte_keeps byteIsSigned (value_bits bs))"
proof (cases bs)
  case Nil
  then show ?thesis by (simp add: decodeByte_def grammar_decodeByte_def readBit_def)
next
  case (Cons b r)
  show ?thesis
  proof (cases b)
    case True
    then have "value_bits bs = 0" using Cons by (simp add: value_bits_def bits_value_def)
    then show ?thesis using Cons True
      by (simp add: decodeByte_def grammar_decodeByte_def readBit_def byte_keeps_def)
  next
    case False
    define l where "l = length (takeWhile Not r)"
    define log2 where "log2 = l + 1"
    define rest where "rest = drop (l + 1) r"
    have bs: "bs = False # r" using Cons False by simp
    have lg: "length (takeWhile Not bs) = log2" by (simp add: bs log2_def l_def)
    have bound: "log2 \<le> 30" using assms lg by simp
    have pos: "log2 \<noteq> 0" by (simp add: log2_def)
    have vb: "value_bits bs = bits_value (take log2 rest)"
      by (simp add: value_bits_def bs log2_def rest_def l_def Let_def)
    show ?thesis
    proof (cases "length r \<le> l")
      case True
      then show ?thesis
        unfolding bs decodeByte_zero_first
        by (simp add: grammar_decodeByte_def l_def Let_def)
    next
      case long: False
      have dz: "decodeByte byteIsSigned is_signed bs =
         (if is_signed then
            (case readBits (log2 + 1) rest of
               Inl e \<Rightarrow> Inl e
             | Inr (v, bs3) \<Rightarrow>
                 Inr (let res0 = (word_of_nat v :: 8 word);
                     sgn = res0 AND 1;
                     res = shift_right_1 byteIsSigned res0 + ucast (one_shl log2) - 1
                 in (res - sgn) XOR (- sgn), bs3))
          else
            (case readBits log2 rest of
               Inl e \<Rightarrow> Inl e
             | Inr (v, bs3) \<Rightarrow> Inr (ucast (one_shl log2 - 1) + word_of_nat v, bs3)))"
        using long unfolding bs decodeByte_zero_first log2_def rest_def l_def
        by (simp add: Let_def split: sum.splits prod.splits)
      have gz: "grammar_decodeByte is_signed bs =
         (if length rest < (if is_signed then log2 + 1 else log2) then Inl BitStreamException
          else if is_signed then
             Inr (word_of_int (((2 ^ log2 - 1 + int (bits_value (take log2 rest)))
                      - (if rest ! log2 then 1 else 0)) XOR (- (if rest ! log2 then 1 else 0))),
                  drop (log2 + 1) rest)
          else Inr (word_of_int (2 ^ log2 - 1 + int (bits_value (take log2 rest))), drop log2 rest))"
        using long unfolding bs grammar_decodeByte_def log2_def rest_def l_def
        by (simp add: Let_def)
      show ?thesis
      proof (cases is_signed)
        case sg: True
        show ?thesis
        proof (cases "length rest < log2 + 1")
          case True
          then have "readBits (log2 + 1) rest = Inl BitStreamException" by (simp add: readBits_def)
          then show ?thesis unfolding dz gz using sg True by simp
        next
          case enough: False
          define v where "v = bits_value (take (log2 + 1) rest)"
          define low where "low = bits_value (take log2 rest)"
          have l64: "log2 + 1 \<le> 64" using bound by simp
          have rb: "readBits (log2 + 1) rest = Inr (v, drop (log2 + 1) rest)"
            using enough l64 by (simp add: readBits_def v_def)
          have v: "v = 2 * low + (if rest ! log2 then 1 else 0)"
            using enough bits_value_take_Suc[of log2 rest] by (simp add: v_def low_def)
          then have vd: "v div 2 = low" "int (v mod 2) = (if rest ! log2 then 1 else 0)" by auto
          have l32: "log2 < 32" using bound by simp
          have "(decodeByte byteIsSigned is_signed bs = grammar_decodeByte is_signed bs) =
              byte_keeps byteIsSigned low"
            unfolding dz gz rb using sg enough signed_value_iff[OF l32, of v byteIsSigned]
            by (simp add: vd low_def[symmetric])
          moreover have "grammar_decodeByte is_signed bs \<noteq> Inl BitStreamException"
            unfolding gz using sg enough by simp
          ultimately show ?thesis using sg by (simp add: vb low_def)
        qed
      next
        case us: False
        show ?thesis
        proof (cases "length rest < log2")
          case True
          then have "readBits log2 rest = Inl BitStreamException" by (simp add: readBits_def)
          then show ?thesis unfolding dz gz using us True by simp
        next
          case enough: False
          define low where "low = bits_value (take log2 rest)"
          have l64: "log2 \<le> 64" "log2 < 32" using bound by simp_all
          have rb: "readBits log2 rest = Inr (low, drop log2 rest)"
            using enough l64 pos by (simp add: readBits_def low_def)
          show ?thesis
            unfolding dz gz rb using us enough unsigned_value[OF l64(2), of low]
            by (simp add: low_def[symmetric])
        qed
      qed
    qed
  qed
qed

text \<open>
  Claim C7 as stated fails. On the zero run of length 8 followed by the value bits
  \<open>10000000\<close> and the sign bit \<open>0\<close>, the grammar gives the low 8 bits of
  \<open>255 + 128\<close>, that is 127, and \<open>decodeByte\<close> returns 255, whatever the signedness of
  \<open>byte\<close>: the nine bits read are cut to a byte before the value bits are taken from them.
  When \<open>byte\<close> is a signed type, the shift \<open>res >> 1\<close> copies the sign bit of the byte: on
  the zero run of length 7 followed by the value bits \<open>1000000\<close> and the sign bit \<open>0\<close>, the
  grammar gives \<open>127 + 64 = 191\<close> and \<open>decodeByte\<close> returns 63.
\<close>

theorem decodeByte_long_zero_run:
  "decodeByte True True [False, False, False, False, False, False, False, False, True,
      True, False, False, False, False, False, False, False, False] = Inr (255, []) \<and>
   decodeByte False True [False, False, False, False, False, False, False, False, True,
      True, False, False, False, False, False, False, False, False] = Inr (255, []) \<and>
   grammar_decodeByte True [False, False, False, False, False, False, False, False, True,
      True, False, False, False, False, False, False, False, False] = Inr (127, []) \<and>
   decodeByte True True [False, False, False, False, False, False, False, True,
      True, False, False, False, False, False, False, False] = Inr (63, []) \<and>
   grammar_decodeByte True [False, False, False, False, False, False, False, True,
      True, False, False, False, False, False, False, False] = Inr (191, [])"
  by code_simp

text \<open>
  The theorem of claim C7 at the signed code word \<open>0000000 1 0000001 1\<close> of the value
  \<open>-128\<close>, with a signed \<open>byte\<close>: the zero run has length 7 and \<open>low = 1\<close>.
\<close>

theorem decodeByte_grammar_witness:
  "decodeByte True True [False, False, False, False, False, False, False, True,
      False, False, False, False, False, False, True, True] =
   grammar_decodeByte True [False, False, False, False, False, False, False, True,
      False, False, False, False, False, False, True, True] \<and>
   grammar_decodeByte True [False, False, False, False, False, False, False, True,
      False, False, False, False, False, False, True, True] = Inr (128, [])"
proof -
  have h: "length (takeWhile Not [False, False, False, False, False, False, False, True,
      False, False, False, False, False, False, True, True]) \<le> 30"
    by simp
  have k: "byte_keeps True (value_bits [False, False, False, False, False, False, False, True,
      False, False, False, False, False, False, True, True])"
    by code_simp
  have g: "grammar_decodeByte True [False, False, False, False, False, False, False, True,
      False, False, False, False, False, False, True, True] = Inr (128, [])"
    by code_simp
  show ?thesis using decodeByte_grammar[OF h, of True True] k g by simp
qed

subsection \<open>The unrolled loop\<close>

lemma and_then_simps [simp]: "and_then (Inl e) f = Inl e" "and_then (Inr x) f = f x"
  by (simp_all add: and_then_def)

lemma and_then_assoc: "and_then (and_then m f) g = and_then m (\<lambda>x. and_then (f x) g)"
  by (cases m) simp_all

lemma decode_naive_add:
  "decode_naive b g p (m + n) i s = and_then (decode_naive b g p m i s) (decode_naive b g p n (i + m))"
proof (induction m arbitrary: i s)
  case 0 then show ?case by simp
next
  case (Suc m)
  show ?case
    by (cases "store_decodeByte b g p i s") (simp_all add: Suc)
qed

lemma decode_loop1_naive:
  "i \<le> len \<Longrightarrow> decode_loop1 b g p len i s = decode_naive b g p (len - i) i s"
proof (induction b g p len i s rule: decode_loop1.induct)
  case (1 b g p len i s)
  show ?case
  proof (cases "i < len")
    case True
    then have e: "len - i = Suc (len - (i + 1))" by simp
    show ?thesis
      apply (subst decode_loop1.simps)
      apply (subst e)
      using True 1 
      apply (cases "store_decodeByte b g p i s")
      apply (simp_all)
      done
  next
    case False
    then show ?thesis using 1(2) by (subst decode_loop1.simps) simp
  qed
qed

lemma len8_le: "unat ((len :: 32 word) AND - 8) \<le> unat len"
  by (simp add: word_and_le2 word_le_nat_alt[symmetric])

lemma len8_dvd: "8 dvd unat ((len :: 32 word) AND - 8)"
proof -
  have m: "(- 8 :: 32 word) = NOT (mask 3)" using minus_exp_eq_not_mask[of 3, where 'a="32 word"] by simp
  have "(len AND - 8) AND mask 3 = 0"
    unfolding m by (rule bit_word_eqI) (simp add: bit_simps)
  then have "2 ^ 3 dvd unat (len AND - 8)" by (simp only: and_mask_dvd_nat)
  then show ?thesis by simp
qed

lemma decode_naive_Suc_fun:
  "decode_naive b g p (Suc n) i = (\<lambda>s. and_then (store_decodeByte b g p i s) (decode_naive b g p n (Suc i)))"
  by (rule ext) simp

lemma decode_naive_0_fun: "decode_naive b g p 0 i = Inr"
  by (rule ext) simp

lemma and_then_Inr: "and_then m Inr = m"
  by (cases m) simp_all

lemma decode_naive_8:
  "and_then (decode_naive b g p 8 i s) f =
        and_then (store_decodeByte b g p i s) (\<lambda>s.
        and_then (store_decodeByte b g p (i + 1) s) (\<lambda>s.
        and_then (store_decodeByte b g p (i + 2) s) (\<lambda>s.
        and_then (store_decodeByte b g p (i + 3) s) (\<lambda>s.
        and_then (store_decodeByte b g p (i + 4) s) (\<lambda>s.
        and_then (store_decodeByte b g p (i + 5) s) (\<lambda>s.
        and_then (store_decodeByte b g p (i + 6) s) (\<lambda>s.
        and_then (store_decodeByte b g p (i + 7) s) f)))))))"
proof -
  have n: "(8::nat) = Suc (Suc (Suc (Suc (Suc (Suc (Suc (Suc 0)))))))" by simp
  have ix: "i + 1 = Suc i" "i + 2 = Suc (Suc i)" "i + 3 = Suc (Suc (Suc i))"
    "i + 4 = Suc (Suc (Suc (Suc i)))" "i + 5 = Suc (Suc (Suc (Suc (Suc i))))"
    "i + 6 = Suc (Suc (Suc (Suc (Suc (Suc i)))))"
    "i + 7 = Suc (Suc (Suc (Suc (Suc (Suc (Suc i))))))" by simp_all
  show ?thesis
    unfolding n ix
    by (simp only: decode_naive.simps decode_naive_Suc_fun decode_naive_0_fun and_then_assoc
        and_then_Inr)
qed



lemma decode_loop8_step:
  assumes "i < len8"
  shows "decode_loop8 b g p len8 i s =
     and_then (decode_naive b g p 8 i s) (decode_loop8 b g p len8 (i + 8))"
  apply (subst decode_naive_8)
  apply (subst decode_loop8.simps[of b g p len8 i s])
  apply (simp only: assms if_True)
  done


lemma decode_loop8_naive:
  "i \<le> len8 \<Longrightarrow> 8 dvd (len8 - i) \<Longrightarrow>
     decode_loop8 b g p len8 i s = decode_naive b g p (len8 - i) i s"
proof (induction "len8 - i" arbitrary: i s rule: less_induct)
  case less
  show ?case
  proof (cases "i < len8")
    case True
    then have "8 \<le> len8 - i" using less.prems(2) by presburger
    then have e: "len8 - i = 8 + (len8 - (i + 8))" by simp
    have d: "i + 8 \<le> len8" "8 dvd (len8 - (i + 8))" "len8 - (i + 8) < len8 - i"
      using \<open>8 \<le> len8 - i\<close> less.prems(2) True by presburger+
    have ih: "decode_loop8 b g p len8 (i + 8) = decode_naive b g p (len8 - (i + 8)) (i + 8)"
      by (rule ext) (rule less.hyps[OF d(3) d(1) d(2)])
    have "decode_loop8 b g p len8 i s =
          and_then (decode_naive b g p 8 i s) (decode_loop8 b g p len8 (i + 8))"
      by (rule decode_loop8_step[OF True])
    also have "\<dots> = and_then (decode_naive b g p 8 i s) (decode_naive b g p (len8 - (i + 8)) (i + 8))"
      by (simp only: ih)
    also have "\<dots> = decode_naive b g p (8 + (len8 - (i + 8))) i s"
      by (simp only: decode_naive_add)
    also have "\<dots> = decode_naive b g p (len8 - i) i s"
      by (simp only: e[symmetric])
    finally show ?thesis .
  next
    case False
    then have "len8 - i = 0" by simp
    then show ?thesis using False by (subst decode_loop8.simps) simp
  qed
qed


text \<open>
  Claim C9. For every memory, block pointer, length and bit stream, \<open>decode\<close> with its
  loop unrolled by 8 does what the naive loop of \<open>len\<close> calls of \<open>decodeByte\<close> does:
  it stores the same bytes at the same offsets, leaves the same bit stream, raises when the
  naive loop raises (with the same bytes stored so far), and returns \<open>len\<close> when the
  naive loop completes.
\<close>

theorem decode_unrolled_eq_naive:
  "decode byteIsSigned is_signed block blkptr len bs =
     and_then (decode_naive byteIsSigned is_signed (unat blkptr) (unat len) 0 (block, bs))
       (\<lambda>s. case s of (block', bs') \<Rightarrow> Inr (block', bs', len))"
proof -
  define len8 where "len8 = unat (len AND - 8)"
  have l: "len8 \<le> unat len" "8 dvd len8" by (simp_all add: len8_def len8_le len8_dvd)
  let ?ret = "\<lambda>s. case s of (block', bs') \<Rightarrow> Inr (block', bs', len)"
  have a: "decode_loop8 byteIsSigned is_signed (unat blkptr) len8 0 (block, bs) =
           decode_naive byteIsSigned is_signed (unat blkptr) len8 0 (block, bs)"
    using decode_loop8_naive[of 0 len8] l(2) by simp
  have b: "decode_loop1 byteIsSigned is_signed (unat blkptr) (unat len) len8 =
           decode_naive byteIsSigned is_signed (unat blkptr) (unat len - len8) (0 + len8)"
    by (rule ext) (simp add: decode_loop1_naive[OF l(1)])
  have "decode byteIsSigned is_signed block blkptr len bs =
        and_then (decode_loop8 byteIsSigned is_signed (unat blkptr) len8 0 (block, bs)) (\<lambda>s.
        and_then (decode_loop1 byteIsSigned is_signed (unat blkptr) (unat len) len8 s) ?ret)"
    by (simp add: decode_def Let_def len8_def)
  also have "\<dots> = and_then (and_then
        (decode_naive byteIsSigned is_signed (unat blkptr) len8 0 (block, bs))
        (decode_naive byteIsSigned is_signed (unat blkptr) (unat len - len8) (0 + len8))) ?ret"
    by (simp only: a b and_then_assoc)
  also have "\<dots> = and_then
        (decode_naive byteIsSigned is_signed (unat blkptr) (len8 + (unat len - len8)) 0 (block, bs)) ?ret"
    by (simp only: decode_naive_add)
  also have "len8 + (unat len - len8) = unat len" using l(1) by simp
  finally show ?thesis .
qed

text \<open>
  The theorem at \<open>blkptr = 2\<close>, \<open>len = 3\<close> and the stream of the code words of
  0, 1 and 5 followed by one more bit.
\<close>

theorem decode_unrolled_eq_naive_witness:
  "decode False False (\<lambda>_. 0) 2 3 [True, False, True, False, False, False, True, True, False, True] =
     and_then (decode_naive False False (unat (2 :: 32 word)) (unat (3 :: 32 word)) 0
        (\<lambda>_. 0, [True, False, True, False, False, False, True, True, False, True]))
       (\<lambda>s. case s of (block', bs') \<Rightarrow> Inr (block', bs', 3)) \<and>
   (case decode False False (\<lambda>_. 0) 2 3 [True, False, True, False, False, False, True, True, False, True]
      of Inl e \<Rightarrow> None | Inr (block', bs', r) \<Rightarrow> Some (map block' [0..<6], bs', r)) =
     Some ([0, 0, 0, 1, 5, 0], [True], 3)"
proof -
  have "(case decode False False (\<lambda>_. 0) 2 3 [True, False, True, False, False, False, True, True, False, True]
      of Inl e \<Rightarrow> None | Inr (block', bs', r) \<Rightarrow> Some (map block' [0..<6], bs', r)) =
     Some ([0, 0, 0, 1, 5, 0], [True], 3)"
    by code_simp
  then show ?thesis
    using decode_unrolled_eq_naive[of False False "\<lambda>_. 0" 2 3
        "[True, False, True, False, False, False, True, True, False, True]"]
    by blast
qed
section \<open>Properties of the ANS encoder\<close>

subsection \<open>The symbol entry computed by reset\<close>

lemma sint_word_of_int_32:
  "- (2 ^ 31) \<le> x \<Longrightarrow> x < 2 ^ 31 \<Longrightarrow> sint (word_of_int x :: 32 word) = x"
  by (simp add: signed_of_int signed_take_bit_int_eq_self)

lemma clamp_min:
  "(if freq \<ge> 2 ^ lr then 2 ^ lr - 1 else freq) = min freq (2 ^ lr - 1 :: int)"
  "(if min freq (2 ^ lr - 1) \<ge> 2 ^ lr then 2 ^ lr - 1 else min freq (2 ^ lr - 1)) =
     min freq (2 ^ lr - 1 :: int)"
  by (simp_all add: min_def)

lemma reset_clamp:
  "reset t cumFreq freq lr = reset t cumFreq (min freq (2 ^ lr - 1)) lr"
  unfolding reset_def clamp_min(1) min.assoc min.idem ..

lemma reset_xMax:
  "xMax (reset t cumFreq freq lr) =
     word_of_int (((sint t div 2 ^ lr) * 2 ^ 8) * min freq (2 ^ lr - 1))"
  unfolding reset_def clamp_min(1) by (simp add: Let_def)

lemma xMax_bounds:
  fixes t f :: int
  assumes "1 \<le> freq" "8 \<le> lr" "lr \<le> 16" "2 ^ 16 \<le> t" "t \<le> 2 ^ 23"
  defines "x \<equiv> ((t div 2 ^ lr) * 2 ^ 8) * min freq (2 ^ lr - 1)"
  shows "0 < x" "x < 2 ^ 31"
proof -
  define d where "d = t div 2 ^ lr"
  define f where "f = min freq (2 ^ lr - 1)"
  have p: "(2::int) ^ lr \<le> 2 ^ 16" using assms(3) by (intro power_increasing) simp_all
  have p8: "(2::int) ^ 8 \<le> 2 ^ lr" using assms(2) by (intro power_increasing) simp_all
  have d1: "1 \<le> d"
  proof -
    have "2 ^ lr \<le> t" using p assms(4) by linarith
    then have "2 ^ lr div 2 ^ lr \<le> t div (2 ^ lr :: int)" by (intro zdiv_mono1) simp_all
    then show ?thesis by (simp add: d_def)
  qed
  have d2: "d * 2 ^ lr \<le> 2 ^ 23"
  proof -
    have "d * 2 ^ lr \<le> t" unfolding d_def
      by (metis mult.commute zero_less_numeral zero_less_power pos_mod_sign mult_div_mod_eq
          le_add_same_cancel1)
    then show ?thesis using assms(5) by linarith
  qed
  have f1: "1 \<le> f" "f \<le> 2 ^ lr - 1" using assms(1) p8 by (simp_all add: f_def)
  have x: "x = 256 * (d * f)" by (simp add: x_def d_def f_def)
  have "0 < d * f" using d1 f1 by simp
  then show "0 < x" using x by simp
  have "d * f \<le> d * (2 ^ lr - 1)" using f1 d1 by (intro mult_left_mono) simp_all
  also have "\<dots> = d * 2 ^ lr - d" by (simp add: algebra_simps)
  also have "\<dots> < 2 ^ 23" using d1 d2 by linarith
  finally have "256 * (d * f) < 256 * 2 ^ 23" by simp
  then show "x < 2 ^ 31" using x by simp
qed

text \<open>
  Claim C6. For \<open>cumFreq \<ge> 0\<close>, \<open>freq \<ge> 1\<close> and \<open>logRange\<close> in 8..16, \<open>reset\<close> works with
  \<open>freq\<close> clamped to \<open>2^logRange - 1\<close>, and \<open>_xMax\<close> is
  \<open>((ANS_TOP >> logRange) << 8) * freq\<close> for the clamped \<open>freq\<close> without overflow, a positive
  32-bit \<open>int\<close>. The constant \<open>ANS_TOP\<close> is declared outside the sources: this holds for
  every value of it from \<open>1 << 16\<close> to \<open>1 << 23\<close>. For
  \<open>(cumFreq, freq, logRange) = (0, 1, 12)\<close> and any \<open>ANS_TOP\<close>, \<open>_invFreq = 0xFFFFFFFF\<close>,
  \<open>_invShift = 32\<close> and \<open>_bias = (1 << 12) - 1\<close>.
\<close>

theorem reset_xMax_positive:
  "(0 \<le> cumFreq \<and> 1 \<le> freq \<and> 8 \<le> lr \<and> lr \<le> 16 \<and>
    2 ^ 16 \<le> sint ANS_TOP \<and> sint ANS_TOP \<le> 2 ^ 23 \<longrightarrow>
      reset ANS_TOP cumFreq freq lr =
        reset ANS_TOP cumFreq (min freq (2 ^ lr - 1)) lr \<and>
      sint (xMax (reset ANS_TOP cumFreq freq lr)) =
        ((sint ANS_TOP div 2 ^ lr) * 2 ^ 8) * min freq (2 ^ lr - 1) \<and>
      0 < sint (xMax (reset ANS_TOP cumFreq freq lr))) \<and>
   invFreq (reset t 0 1 12) = 0xFFFFFFFF \<and>
   invShift (reset t 0 1 12) = 32 \<and>
   bias (reset t 0 1 12) = 2 ^ 12 - 1"
proof (intro conjI impI)
  assume a: "0 \<le> cumFreq \<and> 1 \<le> freq \<and> 8 \<le> lr \<and> lr \<le> 16 \<and>
    2 ^ 16 \<le> sint ANS_TOP \<and> sint ANS_TOP \<le> 2 ^ 23"
  let ?x = "((sint ANS_TOP div 2 ^ lr) * 2 ^ 8) * min freq (2 ^ lr - 1)"
  have b: "0 < ?x" "?x < 2 ^ 31" using xMax_bounds[of freq lr "sint ANS_TOP"] a by simp_all
  show "reset ANS_TOP cumFreq freq lr =
        reset ANS_TOP cumFreq (min freq (2 ^ lr - 1)) lr"
    by (rule reset_clamp)
  show s: "sint (xMax (reset ANS_TOP cumFreq freq lr)) = ?x"
    unfolding reset_xMax using b by (intro sint_word_of_int_32) simp_all
  show "0 < sint (xMax (reset ANS_TOP cumFreq freq lr))" unfolding s using b(1) .
qed (simp_all add: reset_def)


text \<open>
  The theorem at \<open>ANS_TOP = 1 << 23\<close> and \<open>(cumFreq, freq, logRange) = (0, 5000, 12)\<close>, where
  \<open>freq\<close> is clamped to 4095.
\<close>

theorem reset_xMax_positive_witness:
  "reset 0x800000 0 5000 12 = reset 0x800000 0 4095 12 \<and>
   sint (xMax (reset 0x800000 0 5000 12)) = 2146959360 \<and>
   0 < sint (xMax (reset 0x800000 0 5000 12)) \<and>
   invFreq (reset 0x800000 0 1 12) = 0xFFFFFFFF \<and>
   invShift (reset 0x800000 0 1 12) = 32 \<and>
   bias (reset 0x800000 0 1 12) = 2 ^ 12 - 1"
proof -
  have h: "(0::int) \<le> 0 \<and> (1::int) \<le> 5000 \<and> (8::nat) \<le> 12 \<and> (12::nat) \<le> 16 \<and>
      2 ^ 16 \<le> sint (0x800000 :: 32 word) \<and> sint (0x800000 :: 32 word) \<le> 2 ^ 23"
    by simp
  have m: "min (5000::int) (2 ^ 12 - 1) = 4095" by simp
  have x: "((sint (0x800000 :: 32 word) div 2 ^ 12) * 2 ^ 8) * (4095::int) = 2146959360" by simp
  from reset_xMax_positive[of 0 5000 12 "0x800000" "0x800000"] h
  have "reset 0x800000 0 5000 12 = reset 0x800000 0 (min 5000 (2 ^ 12 - 1)) 12 \<and>
      sint (xMax (reset 0x800000 0 5000 12)) =
        ((sint (0x800000 :: 32 word) div 2 ^ 12) * 2 ^ 8) * min 5000 (2 ^ 12 - 1) \<and>
      0 < sint (xMax (reset 0x800000 0 5000 12))"
    and "invFreq (reset 0x800000 0 1 12) = 0xFFFFFFFF \<and>
      invShift (reset 0x800000 0 1 12) = 32 \<and>
      bias (reset 0x800000 0 1 12) = 2 ^ 12 - 1"
    by blast+
  then show ?thesis unfolding m x by blast
qed

subsection \<open>The symbol entries used for a chunk\<close>

lemma visit_all_snoc:
  "visit_all visit (ks @ [k]) s = (case visit_all visit ks s of None \<Rightarrow> None | Some s' \<Rightarrow> visit k s')"
  by (induction ks arbitrary: s) (auto split: option.splits)

lemma upto_rev_step: "0 \<le> i \<Longrightarrow> rev [1 .. i + 1] = (i + 1) # rev [1 .. i]"
  using upto_rec2[of 1 "i + 1"] by simp

lemma order1_loop_entries:
  assumes "- 1 \<le> i" "prv = ucast (data (i + 1))"
  shows "order1_loop visit data i prv s =
     (case visit_all visit
        (map (\<lambda>j. unat (push_bit 8 (ucast (data (j - 1)) :: 32 word) OR ucast (data j)))
           (rev [1 .. i + 1])) s of
        None \<Rightarrow> None | Some s' \<Rightarrow> Some (ucast (data 0), s'))"
  using assms
proof (induction "nat (i + 1)" arbitrary: i prv s)
  case 0
  then have "i = - 1" by simp
  then show ?case using 0 by (subst order1_loop.simps) simp
next
  case (Suc n)
  then have i: "0 \<le> i" "n = nat ((i - 1) + 1)" "- 1 \<le> i - 1" by simp_all
  have ih: "\<And>s'. order1_loop visit data (i - 1) (ucast (data i)) s' =
     (case visit_all visit
        (map (\<lambda>j. unat (push_bit 8 (ucast (data (j - 1)) :: 32 word) OR ucast (data j)))
           (rev [1 .. i])) s' of
        None \<Rightarrow> None | Some s'' \<Rightarrow> Some (ucast (data 0), s''))"
    using Suc.hyps(1)[OF i(2) i(3), of "ucast (data i)"] by simp
  show ?case
    apply (subst order1_loop.simps)
    using i(1) Suc.prems(2)
    apply (simp add: upto_rev_step ih Let_def split: option.splits)
    done
qed

lemma unat_ucast_8_32: "unat (ucast (x :: 8 word) :: 32 word) = unat x"
proof -
  have "unat x < 2 ^ 8" using unsigned_less[of x] by simp
  then have "unat x < 2 ^ 32" by simp
  then show ?thesis by (simp add: unsigned_ucast_eq take_bit_nat_eq_self)
qed

lemma order1_encode_entries:
  assumes "1 \<le> end"
  shows "order1_encode visit block end s = visit_all visit (chunk_entries 1 block end) s"
proof -
  have "order1_loop visit block (end - 2) (ucast (block (end - 1))) s =
     (case visit_all visit
        (map (\<lambda>j. unat (push_bit 8 (ucast (block (j - 1)) :: 32 word) OR ucast (block j)))
           (rev [1 .. end - 1])) s of
        None \<Rightarrow> None | Some s' \<Rightarrow> Some (ucast (block 0), s'))"
    using order1_loop_entries[of "end - 2" "ucast (block (end - 1))" block visit s] assms
    by simp
  then show ?thesis
    by (simp add: order1_encode_def chunk_entries_def visit_all_snoc Let_def unat_ucast_8_32
        split: option.splits)
qed

lemma upto_rev_step0: "0 \<le> i \<Longrightarrow> rev [0 .. i] = i # rev [0 .. i - 1]"
  using upto_rec2[of 0 i] by simp

lemma order0_loop_entries:
  assumes "- 1 \<le> i"
  shows "order0_loop symb data i s =
     visit_all (\<lambda>idx. encode_symbol (symb idx)) (map (\<lambda>j. unat (data j)) (rev [0 .. i])) s"
  using assms
proof (induction "nat (i + 1)" arbitrary: i s)
  case 0
  then have "i = - 1" by simp
  then show ?case by (subst order0_loop.simps) simp
next
  case (Suc n)
  then have i: "0 \<le> i" "n = nat ((i - 1) + 1)" "- 1 \<le> i - 1" by simp_all
  show ?case
    apply (subst order0_loop.simps)
    using i(1) Suc.hyps(1)[OF i(2) i(3)]
    apply (simp add: upto_rev_step0 split: option.splits)
    done
qed

text \<open>
  Claim C3, as the code has it. In order-1 encoding of a chunk of at least one byte,
  every byte but the first is encoded with the entry of the order-1 symbol table in the
  row of the byte before it, from the last byte of the chunk to the second; then the
  first byte of the chunk is encoded, as the last symbol, with the entry of row 0 indexed
  by the byte itself (the anchor).
\<close>

theorem encodeChunk_entries:
  assumes "order enc \<noteq> 0" "1 \<le> end"
  shows "encodeChunk ANS_TOP enc block end =
     map_option (write_chunk enc (int (unat (bufferSize enc - 1))))
       (visit_all (\<lambda>idx. encode_symbol (symbols enc idx))
          (map (\<lambda>j. unat (push_bit 8 (ucast (block (j - 1)) :: 32 word) OR ucast (block j)))
             (rev [1 .. end - 1])
             @ [unat (block 0)])
          (ANS_TOP, int (unat (bufferSize enc - 1)), buffer enc))"
  using assms order1_encode_entries[OF assms(2), of "\<lambda>idx. encode_symbol (symbols enc idx)" block]
  by (simp add: encodeChunk_def Let_def chunk_entries_def split: option.splits)

text \<open>
  Claim C3 as stated fails. For the chunk \<open>AB\<close> the indices at which the order-1 branch
  reads \<open>_symbols\<close> are \<open>0x4142\<close> (row \<open>A\<close>, column \<open>B\<close>) and then \<open>0x41\<close> (row 0, column
  \<open>A\<close>): the last byte \<open>B\<close> is encoded with the order-1 table, and the entry of row 0 is
  that of the first byte, not \<open>0x42\<close>.
\<close>

theorem order1_encode_reads_AB:
  "order1_encode (\<lambda>idx tr. Some (tr @ [idx])) example_block 2 [] = Some [0x4142, 0x41]"
  by code_simp

text \<open>The theorem of claim C3 at the example in order 1.\<close>

theorem encodeChunk_entries_witness:
  "encodeChunk 0x800000 (example_encoder 1) example_block 4 =
     map_option (write_chunk (example_encoder 1) 3)
       (visit_all (\<lambda>idx. encode_symbol (example_symbols 1 idx)) [0x4344, 0x4243, 0x4142, 0x41]
          (0x800000, 3, \<lambda>_. 0))"
proof -
  have o: "order (example_encoder 1) \<noteq> 0" by (simp add: example_encoder_def)
  have e: "(1::int) \<le> 4" by simp
  have l: "map (\<lambda>j. unat (push_bit 8 (ucast (example_block (j - 1)) :: 32 word) OR
              ucast (example_block j))) (rev [1 .. 4 - 1]) @ [unat (example_block 0)] =
           [0x4344, 0x4243, 0x4142, 0x41]"
    by code_simp
  have f: "int (unat (bufferSize (example_encoder 1) - 1)) = 3"
    "symbols (example_encoder 1) = example_symbols 1" "buffer (example_encoder 1) = (\<lambda>_. 0)"
    by (simp_all add: example_encoder_def)
  show ?thesis using encodeChunk_entries[OF o e, of "0x800000" example_block]
    unfolding l f .
qed

subsection \<open>The writes of a chunk\<close>

lemma encodeChunk_visit_all:
  assumes "order enc \<noteq> 0 \<longrightarrow> 1 \<le> end"
  shows "encodeChunk ANS_TOP enc block end =
     map_option (write_chunk enc (int (unat (bufferSize enc - 1))))
       (visit_all (\<lambda>idx. encode_symbol (symbols enc idx)) (chunk_entries (order enc) block end)
          (ANS_TOP, int (unat (bufferSize enc - 1)), buffer enc))"
proof (cases "order enc = 0")
  case True
  have "order0_loop (symbols enc) block (end - 1) (ANS_TOP, int (unat (bufferSize enc - 1)), buffer enc)
      = visit_all (\<lambda>idx. encode_symbol (symbols enc idx)) (chunk_entries 0 block end)
          (ANS_TOP, int (unat (bufferSize enc - 1)), buffer enc)"
  proof (cases "0 \<le> end")
    case True
    then show ?thesis using order0_loop_entries[of "end - 1"] by (simp add: chunk_entries_def)
  next
    case False
    then show ?thesis by (subst order0_loop.simps) (simp add: chunk_entries_def)
  qed
  then show ?thesis using True by (simp add: encodeChunk_def Let_def split: option.splits)
next
  case False
  then show ?thesis
    using assms order1_encode_entries[of "end" "\<lambda>idx. encode_symbol (symbols enc idx)" block]
    by (simp add: encodeChunk_def Let_def chunk_entries_def split: option.splits)
qed


lemma renormalize_returns:
  assumes "0 < sint xmax"
  shows "\<exists>st' p' buf'. renormalize xmax st p buf = Some (st', p', buf') \<and> p' \<le> p"
proof (induction "nat (sint st)" arbitrary: st p buf rule: less_induct)
  case less
  show ?case
  proof (cases "sint xmax \<le> sint st")
    case True
    then have pos: "0 < sint st" using assms by linarith
    have "sint (signed_drop_bit 8 st) = sint st div 2 ^ 8"
      by (simp add: sint_signed_drop_bit_eq drop_bit_eq_div)
    then have "nat (sint (signed_drop_bit 8 st)) < nat (sint st)" using pos by simp
    from less[OF this, of "p - 1" "buf(p := ucast st)"]
    obtain st' p' buf' where
      "renormalize xmax (signed_drop_bit 8 st) (p - 1) (buf(p := ucast st)) = Some (st', p', buf')"
      "p' \<le> p - 1" by blast
    then show ?thesis using True by (subst renormalize.simps) simp
  next
    case False
    then show ?thesis by (subst renormalize.simps) simp
  qed
qed

lemma encode_symbol_returns:
  assumes "0 < sint (xMax sy)"
  shows "\<exists>st' p' buf'. encode_symbol sy (st, p, buf) = Some (st', p', buf') \<and> p' \<le> p"
proof -
  obtain st1 p1 buf1 where "renormalize (xMax sy) st p buf = Some (st1, p1, buf1)" "p1 \<le> p"
    using renormalize_returns[OF assms, of st p buf] by blast
  then show ?thesis by (simp add: encode_symbol_def Let_def)
qed

lemma visit_all_encode_returns:
  assumes "\<forall>idx\<in>set ks. 0 < sint (xMax (symb idx))"
  shows "\<exists>st' p' buf'.
     visit_all (\<lambda>idx. encode_symbol (symb idx)) ks (st, p, buf) = Some (st', p', buf') \<and> p' \<le> p"
  using assms
proof (induction ks arbitrary: st p buf)
  case Nil
  then show ?case by simp
next
  case (Cons k ks)
  obtain st1 p1 buf1 where a: "encode_symbol (symb k) (st, p, buf) = Some (st1, p1, buf1)" "p1 \<le> p"
    using encode_symbol_returns[of "symb k" st p buf] Cons.prems by auto
  obtain st2 p2 buf2 where b:
    "visit_all (\<lambda>idx. encode_symbol (symb idx)) ks (st1, p1, buf1) = Some (st2, p2, buf2)" "p2 \<le> p1"
    using Cons.IH[of st1 p1 buf1] Cons.prems by auto
  show ?case using a b by simp
qed

text \<open>
  Claim C4, as the code has it. Let \<open>p0\<close> be the index of the last byte of \<open>_buffer\<close>.
  When every symbol entry used for the chunk has a positive \<open>_xMax\<close> (and the chunk is not
  empty in order 1), the encoding of the symbols of the chunk, from the state \<open>ANS_TOP\<close>
  and the position \<open>p0\<close>, ends with a final state \<open>st\<close>, a position \<open>p \<le> p0\<close> and the buffer
  \<open>buf\<close>, whose bytes after \<open>p\<close> are the encoded bytes; \<open>encodeChunk\<close> returns, and it has
  appended to the bit stream exactly three writes, in this order: the count \<open>p0 - p\<close> of
  buffered bytes as a varint, then the final state \<open>st\<close> in 32 bits, then the buffered
  bytes, those of \<open>buf\<close> from \<open>p + 1\<close> on.
\<close>

theorem encodeChunk_writes:
  assumes "\<forall>idx\<in>set (chunk_entries (order enc) block end). 0 < sint (xMax (symbols enc idx))"
      and "order enc \<noteq> 0 \<longrightarrow> 1 \<le> end"
  shows "\<exists>(st :: 32 word) p buf.
     visit_all (\<lambda>idx. encode_symbol (symbols enc idx)) (chunk_entries (order enc) block end)
       (ANS_TOP, int (unat (bufferSize enc - 1)), buffer enc) = Some (st, p, buf) \<and>
     p \<le> int (unat (bufferSize enc - 1)) \<and>
     encodeChunk ANS_TOP enc block end =
       Some (enc\<lparr>buffer := buf,
                 bitstream := bitstream enc @
                   [WriteVarInt (word_of_int (int (unat (bufferSize enc - 1)) - p)),
                    WriteBits (scast st) 32,
                    WriteBytes
                      (map buf [p + 1 .. p + int (unat (8 * (word_of_int (int (unat (bufferSize enc - 1)) - p) :: 32 word)) div 8)])
                      (unat (8 * (word_of_int (int (unat (bufferSize enc - 1)) - p) :: 32 word)))]\<rparr>)"
proof -
  obtain st p buf where r:
    "visit_all (\<lambda>idx. encode_symbol (symbols enc idx)) (chunk_entries (order enc) block end)
       (ANS_TOP, int (unat (bufferSize enc - 1)), buffer enc) = Some (st, p, buf)"
    "p \<le> int (unat (bufferSize enc - 1))"
    using visit_all_encode_returns[OF assms(1)] by blast
  have "encodeChunk ANS_TOP enc block end =
       Some (enc\<lparr>buffer := buf,
                 bitstream := bitstream enc @
                   [WriteVarInt (word_of_int (int (unat (bufferSize enc - 1)) - p)),
                    WriteBits (scast st) 32,
                    WriteBytes
                      (map buf [p + 1 .. p + int (unat (8 * (word_of_int (int (unat (bufferSize enc - 1)) - p) :: 32 word)) div 8)])
                      (unat (8 * (word_of_int (int (unat (bufferSize enc - 1)) - p) :: 32 word)))]\<rparr>)"
    unfolding encodeChunk_visit_all[OF assms(2)] r(1)
    by (simp add: write_chunk_def Let_def)
  with r show ?thesis by blast
qed

text \<open>
  Claim C4 as stated fails: for the example in order 0, one byte is buffered, and the
  final state \<open>0x80000E\<close> is written before the buffered byte \<open>0x40\<close>, not after it.
\<close>

theorem encodeChunk_example_writes:
  "map_option bitstream (encodeChunk 0x800000 (example_encoder 0) example_block 4) =
     Some [WriteVarInt 1, WriteBits 0x80000E 32, WriteBytes [0x40] 8]"
  by code_simp

text \<open>
  The theorem of claim C4 at the example in order 0: the encoding of \<open>D\<close>, \<open>C\<close>, \<open>B\<close>, \<open>A\<close>
  ends with the state \<open>0x80000E\<close> and one byte buffered at index 3.
\<close>

theorem encodeChunk_writes_witness:
  "\<exists>(st :: 32 word) p buf.
     visit_all (\<lambda>idx. encode_symbol (example_symbols 0 idx)) [0x44, 0x43, 0x42, 0x41]
       (0x800000, 3, \<lambda>_. 0) = Some (st, p, buf) \<and>
     p \<le> 3 \<and>
     encodeChunk 0x800000 (example_encoder 0) example_block 4 =
       Some ((example_encoder 0)\<lparr>buffer := buf,
                 bitstream := bitstream (example_encoder 0) @
                   [WriteVarInt (word_of_int (3 - p)),
                    WriteBits (scast st) 32,
                    WriteBytes
                      (map buf [p + 1 .. p + int (unat (8 * (word_of_int (3 - p) :: 32 word)) div 8)])
                      (unat (8 * (word_of_int (3 - p) :: 32 word)))]\<rparr>)"
proof -
  have o: "order (example_encoder 0) = 0" "symbols (example_encoder 0) = example_symbols 0"
    "buffer (example_encoder 0) = (\<lambda>_. 0)" "int (unat (bufferSize (example_encoder 0) - 1)) = 3"
    by (simp_all add: example_encoder_def)
  have l: "chunk_entries 0 example_block 4 = [0x44, 0x43, 0x42, 0x41]" by code_simp
  have x: "0 < sint (xMax (example_symbols 0 0x44))" "0 < sint (xMax (example_symbols 0 0x43))"
    "0 < sint (xMax (example_symbols 0 0x42))" "0 < sint (xMax (example_symbols 0 0x41))"
    by code_simp+
  have h1: "\<forall>idx\<in>set (chunk_entries (order (example_encoder 0)) example_block 4).
      0 < sint (xMax (symbols (example_encoder 0) idx))"
    unfolding o l using x by simp
  have h2: "order (example_encoder 0) \<noteq> 0 \<longrightarrow> (1::int) \<le> 4" by simp
  show ?thesis using encodeChunk_writes[OF h1 h2, of "0x800000"] unfolding o l .
qed

subsection \<open>An empty block\<close>

text \<open>
  Claim C10. For every encoder, block and block pointer, \<open>encode\<close> called with
  \<open>len = 0\<close> returns 0 and leaves the encoder as it was: its bit stream, buffer, buffer
  size, frequency tables and symbol tables are those before the call, and the result does
  not depend on the block.
\<close>

theorem encode_len_0:
  "encode ANS_TOP MAX_CHUNK_SIZE rebuildStatistics newBuffer enc block blkptr 0 = Some (0, enc)"
  by (simp add: encode_def)

end
